theory Spec2Isabelle
  imports Complex_Main
begin

section \<open>JavaScript strings\<close>

text \<open>
  A JavaScript string is a sequence of UTF-16 code units. A code unit is modelled by its
  number; \<open>js\<close> turns an ASCII literal into the code units it denotes.
\<close>

type_synonym jsstring = "nat list"

definition js :: "string \<Rightarrow> jsstring" where
  "js s = map of_char s"

text \<open>
  The code units that ECMAScript counts as WhiteSpace or LineTerminator: what
  \<open>String.prototype.trim\<close> strips and what the class \<open>\s\<close> matches.
\<close>

definition isWhiteSpace :: "nat \<Rightarrow> bool" where
  "isWhiteSpace c \<longleftrightarrow>
     c = 9 \<or> c = 10 \<or> c = 11 \<or> c = 12 \<or> c = 13 \<or> c = 32 \<or> c = 160 \<or> c = 5760 \<or>
     (8192 \<le> c \<and> c \<le> 8202) \<or> c = 8232 \<or> c = 8233 \<or> c = 8239 \<or> c = 8287 \<or>
     c = 12288 \<or> c = 65279"

definition trim :: "jsstring \<Rightarrow> jsstring" where
  "trim s = rev (dropWhile isWhiteSpace (rev (dropWhile isWhiteSpace s)))"

definition isDigit :: "nat \<Rightarrow> bool" where
  "isDigit c \<longleftrightarrow> 48 \<le> c \<and> c \<le> 57"

definition isLower :: "nat \<Rightarrow> bool" where
  "isLower c \<longleftrightarrow> 97 \<le> c \<and> c \<le> 122"

definition isUpper :: "nat \<Rightarrow> bool" where
  "isUpper c \<longleftrightarrow> 65 \<le> c \<and> c \<le> 90"

section \<open>Regular expressions\<close>

text \<open>
  The constructs that the regular expressions of the program use: a class of code units,
  a class under a greedy quantifier \<open>{lo,hi}\<close> (\<open>hi = None\<close>: unbounded), sequence,
  alternative, and an optional group.
\<close>

datatype regex =
    Chars "nat \<Rightarrow> bool"
  | Rep nat "nat option" "nat \<Rightarrow> bool"
  | Seq regex regex
  | Alt regex regex
  | Opt regex

text \<open>
  Backtracking, as a list of successes: \<open>regexMatches r s\<close> lists what is left of \<open>s\<close>
  after each way of matching \<open>r\<close> at its start, in the order in which the backtracking
  matcher of JavaScript tries them (a greedy quantifier tries the longest repetition first, an
  alternative its left side first). The match that JavaScript finds at a position is the first
  of the list.
\<close>

fun regexMatches :: "regex \<Rightarrow> jsstring \<Rightarrow> jsstring list" where
  "regexMatches (Chars p) s = (case s of [] \<Rightarrow> [] | c # cs \<Rightarrow> if p c then [cs] else [])"
| "regexMatches (Rep lo hi p) s =
     (let n = length (takeWhile p s);
          m = (case hi of None \<Rightarrow> n | Some h \<Rightarrow> min h n)
      in map (\<lambda>k. drop k s) (rev [lo..<Suc m]))"
| "regexMatches (Seq a b) s = concat (map (regexMatches b) (regexMatches a s))"
| "regexMatches (Alt a b) s = regexMatches a s @ regexMatches b s"
| "regexMatches (Opt a) s = regexMatches a s @ [s]"

text \<open>
  \<open>s.match(r)\<close> for a regular expression without the \<open>g\<close> flag, reduced to the matched
  text \<open>m[0]\<close>: the first match at the first position that has one; \<open>None\<close> is \<open>null\<close>.
\<close>

fun regexExec :: "regex \<Rightarrow> jsstring \<Rightarrow> jsstring option" where
  "regexExec r [] = (case regexMatches r [] of [] \<Rightarrow> None | t # _ \<Rightarrow> Some [])"
| "regexExec r (c # cs) =
     (case regexMatches r (c # cs) of
        [] \<Rightarrow> regexExec r cs
      | t # _ \<Rightarrow> Some (take (length (c # cs) - length t) (c # cs)))"

definition regexTest :: "regex \<Rightarrow> jsstring \<Rightarrow> bool" where
  "regexTest r s \<longleftrightarrow> regexExec r s \<noteq> None"

text \<open>
  \<open>s.split(r)\<close> for a regular expression that does not match the empty string: at each
  position a match anchored there ends the current piece. \<open>cur\<close> is the current piece,
  reversed.
\<close>

function regexSplit :: "regex \<Rightarrow> jsstring \<Rightarrow> jsstring \<Rightarrow> jsstring list" where
  "regexSplit r cur [] = [rev cur]"
| "regexSplit r cur (c # cs) =
     (case regexMatches r (c # cs) of
        [] \<Rightarrow> regexSplit r (c # cur) cs
      | t # _ \<Rightarrow>
          if length t < length (c # cs) then rev cur # regexSplit r [] t
          else regexSplit r (c # cur) cs)"
  by pat_completeness auto
termination
  by (relation "measure (\<lambda>(r, cur, s). length s)") simp_all

text \<open>\<open>s.split(sep)\<close> for a separator of one code unit.\<close>

fun splitOn :: "nat \<Rightarrow> jsstring \<Rightarrow> jsstring \<Rightarrow> jsstring list" where
  "splitOn sep cur [] = [rev cur]"
| "splitOn sep cur (c # cs) =
     (if c = sep then rev cur # splitOn sep [] cs else splitOn sep (c # cur) cs)"

section \<open>JSON.parse\<close>

text \<open>
  \<open>JSON.parse\<close> belongs to the JavaScript runtime. It is modelled from the JSON grammar
  (ECMA-404): a lexer and a parser over the tokens; \<open>None\<close> stands for the
  \<open>SyntaxError\<close> it throws. A number is kept as the exact value of its literal; it
  stands for the double nearest to that value (or an infinity), which is the number that
  \<open>JSON.parse\<close> returns.
\<close>

datatype json =
    JNull
  | JBool bool
  | JNumber rat
  | JString jsstring
  | JArray "json list"
  | JObject "(jsstring \<times> json) list"

datatype token =
    TLBrace | TRBrace | TLBracket | TRBracket | TColon | TComma
  | TString jsstring | TNumber rat | TTrue | TFalse | TNull

definition hexValue :: "nat \<Rightarrow> nat option" where
  "hexValue c =
     (if 48 \<le> c \<and> c \<le> 57 then Some (c - 48)
      else if 65 \<le> c \<and> c \<le> 70 then Some (c - 55)
      else if 97 \<le> c \<and> c \<le> 102 then Some (c - 87)
      else None)"

definition simpleEscape :: "nat \<Rightarrow> nat option" where
  "simpleEscape e =
     (if e = 34 then Some 34 else if e = 92 then Some 92 else if e = 47 then Some 47
      else if e = 98 then Some 8 else if e = 102 then Some 12 else if e = 110 then Some 10
      else if e = 114 then Some 13 else if e = 116 then Some 9 else None)"

definition hex4 :: "jsstring \<Rightarrow> (nat \<times> jsstring) option" where
  "hex4 s =
     (case s of
        h1 # h2 # h3 # h4 # rest \<Rightarrow>
          (case hexValue h1 of None \<Rightarrow> None | Some v1 \<Rightarrow>
          (case hexValue h2 of None \<Rightarrow> None | Some v2 \<Rightarrow>
          (case hexValue h3 of None \<Rightarrow> None | Some v3 \<Rightarrow>
          (case hexValue h4 of None \<Rightarrow> None | Some v4 \<Rightarrow>
             Some (((v1 * 16 + v2) * 16 + v3) * 16 + v4, rest)))))
      | _ \<Rightarrow> None)"

lemma hex4_shorter: "hex4 s = Some (u, rest) \<Longrightarrow> length rest < length s"
  by (auto simp: hex4_def split: list.splits option.splits)

function lexString :: "jsstring \<Rightarrow> jsstring \<Rightarrow> (jsstring \<times> jsstring) option" where
  "lexString acc [] = None"
| "lexString acc (c # cs) =
     (if c = 34 then Some (rev acc, cs)
      else if c = 92 then
        (case cs of
           [] \<Rightarrow> None
         | e # es \<Rightarrow>
             if e = 117 then
               (case hex4 es of None \<Rightarrow> None | Some (u, rest) \<Rightarrow> lexString (u # acc) rest)
             else (case simpleEscape e of None \<Rightarrow> None | Some u \<Rightarrow> lexString (u # acc) es))
      else if c < 32 then None
      else lexString (c # acc) cs)"
  by pat_completeness auto
termination
  by (relation "measure (\<lambda>(acc, s). length s)") (auto dest: hex4_shorter)

definition digitsValue :: "jsstring \<Rightarrow> nat" where
  "digitsValue ds = foldl (\<lambda>n d. 10 * n + (d - 48)) 0 ds"

definition lexFraction :: "jsstring \<Rightarrow> (jsstring \<times> jsstring) option" where
  "lexFraction s =
     (case s of
        c # r \<Rightarrow>
          if c = 46 then
            (if takeWhile isDigit r = [] then None else Some (takeWhile isDigit r, dropWhile isDigit r))
          else Some ([], s)
      | [] \<Rightarrow> Some ([], s))"

definition lexExponent :: "jsstring \<Rightarrow> (int \<times> jsstring) option" where
  "lexExponent s =
     (case s of
        c # r \<Rightarrow>
          if c = 101 \<or> c = 69 then
            (let (neg, r1) = (case r of [] \<Rightarrow> (False, r)
                              | g # r0 \<Rightarrow> if g = 45 then (True, r0) else if g = 43 then (False, r0) else (False, r))
             in if takeWhile isDigit r1 = [] then None
                else Some ((if neg then - int (digitsValue (takeWhile isDigit r1))
                            else int (digitsValue (takeWhile isDigit r1))),
                           dropWhile isDigit r1))
          else Some (0, s)
      | [] \<Rightarrow> Some (0, s))"

definition pow10 :: "int \<Rightarrow> rat" where
  "pow10 e = (if 0 \<le> e then 10 ^ nat e else 1 / 10 ^ nat (- e))"

definition lexSign :: "jsstring \<Rightarrow> bool \<times> jsstring" where
  "lexSign s = (case s of [] \<Rightarrow> (False, s) | c # r \<Rightarrow> if c = 45 then (True, r) else (False, s))"

definition lexInteger :: "jsstring \<Rightarrow> (jsstring \<times> jsstring) option" where
  "lexInteger s =
     (case s of
        [] \<Rightarrow> None
      | d # r \<Rightarrow>
          if d = 48 then Some ([d], r)
          else if isDigit d then Some (d # takeWhile isDigit r, dropWhile isDigit r)
          else None)"

definition lexNumber :: "jsstring \<Rightarrow> (rat \<times> jsstring) option" where
  "lexNumber s =
     (case lexSign s of
        (neg, s1) \<Rightarrow>
          (case lexInteger s1 of
             None \<Rightarrow> None
           | Some (ip, s2) \<Rightarrow>
               (case lexFraction s2 of
                  None \<Rightarrow> None
                | Some (fp, s3) \<Rightarrow>
                    (case lexExponent s3 of
                       None \<Rightarrow> None
                     | Some (e, s4) \<Rightarrow>
                         Some ((if neg then - 1 else 1) *
                                 (of_nat (digitsValue ip) + of_nat (digitsValue fp) / 10 ^ length fp) *
                                 pow10 e,
                               s4)))))"

lemma lexString_shorter: "lexString acc s = Some (str, rest) \<Longrightarrow> length rest < length s"
proof (induction acc s rule: lexString.induct)
  case (1 acc)
  then show ?case by simp
next
  case (2 acc c cs)
  show ?case
  proof (cases "c = 34")
    case True
    with "2.prems" show ?thesis by simp
  next
    case c34: False
    show ?thesis
    proof (cases "c = 92")
      case False
      then have "\<not> c < 32" and "lexString (c # acc) cs = Some (str, rest)"
        using c34 "2.prems" by (simp_all split: if_splits)
      with "2.IH"(3) [OF c34 False] show ?thesis
        by simp
    next
      case True
      then obtain e es where cs: "cs = e # es"
        using "2.prems" c34 by (cases cs) simp_all
      show ?thesis
      proof (cases "e = 117")
        case False
        then obtain u where u: "simpleEscape e = Some u" and l: "lexString (u # acc) es = Some (str, rest)"
          using "2.prems" c34 True cs by (simp split: option.splits)
        from "2.IH"(2) [OF c34 True cs False u l] show ?thesis
          by (simp add: cs)
      next
        case e: True
        then obtain u r where h: "hex4 es = Some (u, r)" and l: "lexString (u # acc) r = Some (str, rest)"
          using "2.prems" c34 True cs by (simp split: option.splits prod.splits)
        have "length rest < length r"
          by (rule "2.IH"(1) [OF c34 True cs e h refl l])
        moreover have "length r < length es"
          by (rule hex4_shorter [OF h])
        ultimately show ?thesis
          by (simp add: cs)
      qed
    qed
  qed
qed

lemma lexSign_shorter: "lexSign s = (neg, rest) \<Longrightarrow> length rest \<le> length s"
  by (cases s) (auto simp: lexSign_def split: if_splits)

lemma lexInteger_shorter: "lexInteger s = Some (ip, rest) \<Longrightarrow> length rest < length s"
  by (cases s) (auto simp: lexInteger_def le_imp_less_Suc length_dropWhile_le split: if_splits)

lemma lexFraction_shorter: "lexFraction s = Some (fp, rest) \<Longrightarrow> length rest \<le> length s"
  by (cases s) (auto simp: lexFraction_def le_SucI length_dropWhile_le split: if_splits)

lemma lexExponent_shorter: "lexExponent s = Some (e, rest) \<Longrightarrow> length rest \<le> length s"
proof (cases s)
  case Nil
  then show "lexExponent s = Some (e, rest) \<Longrightarrow> length rest \<le> length s"
    by (simp add: lexExponent_def)
next
  case (Cons c r)
  assume a: "lexExponent s = Some (e, rest)"
  show "length rest \<le> length s"
  proof (cases "c = 101 \<or> c = 69")
    case False
    with a Cons show ?thesis by (auto simp: lexExponent_def)
  next
    case True
    obtain neg r1 where p: "(case r of [] \<Rightarrow> (False, r)
          | g # r0 \<Rightarrow> if g = 45 then (True, r0) else if g = 43 then (False, r0) else (False, r)) = (neg, r1)"
      by (meson surj_pair)
    have "length r1 \<le> length r"
      using p by (cases r) (auto split: if_splits)
    moreover have "rest = dropWhile isDigit r1"
      using a Cons True p by (auto simp: lexExponent_def split: if_splits)
    moreover have "length (dropWhile isDigit r1) \<le> length r1"
      by (rule length_dropWhile_le)
    ultimately show ?thesis
      using Cons by simp
  qed
qed

lemma lexNumber_shorter:
  assumes "lexNumber s = Some (n, rest)"
  shows "length rest < length s"
proof -
  obtain neg s1 where a: "lexSign s = (neg, s1)"
    by (meson surj_pair)
  obtain ip s2 where b: "lexInteger s1 = Some (ip, s2)"
    using assms a by (auto simp: lexNumber_def split: option.splits)
  obtain fp s3 where c: "lexFraction s2 = Some (fp, s3)"
    using assms a b by (auto simp: lexNumber_def split: option.splits)
  obtain e s4 where d: "lexExponent s3 = Some (e, s4)"
    using assms a b c by (auto simp: lexNumber_def split: option.splits)
  have r: "rest = s4"
    using assms a b c d by (simp add: lexNumber_def)
  have "length s4 < length s"
    using lexSign_shorter [OF a] lexInteger_shorter [OF b] lexFraction_shorter [OF c]
      lexExponent_shorter [OF d]
    by linarith
  then show ?thesis
    by (simp add: r)
qed

function tokenize :: "jsstring \<Rightarrow> token list option" where
  "tokenize [] = Some []"
| "tokenize (c # cs) =
     (if c = 9 \<or> c = 10 \<or> c = 13 \<or> c = 32 then tokenize cs
      else if c = 123 then map_option (Cons TLBrace) (tokenize cs)
      else if c = 125 then map_option (Cons TRBrace) (tokenize cs)
      else if c = 91 then map_option (Cons TLBracket) (tokenize cs)
      else if c = 93 then map_option (Cons TRBracket) (tokenize cs)
      else if c = 58 then map_option (Cons TColon) (tokenize cs)
      else if c = 44 then map_option (Cons TComma) (tokenize cs)
      else if c = 34 then
        (case lexString [] cs of
           None \<Rightarrow> None
         | Some (str, rest) \<Rightarrow> map_option (Cons (TString str)) (tokenize rest))
      else if c = 45 \<or> isDigit c then
        (case lexNumber (c # cs) of
           None \<Rightarrow> None
         | Some (n, rest) \<Rightarrow> map_option (Cons (TNumber n)) (tokenize rest))
      else if take 4 (c # cs) = js ''true'' then map_option (Cons TTrue) (tokenize (drop 3 cs))
      else if take 5 (c # cs) = js ''false'' then map_option (Cons TFalse) (tokenize (drop 4 cs))
      else if take 4 (c # cs) = js ''null'' then map_option (Cons TNull) (tokenize (drop 3 cs))
      else None)"
  by pat_completeness auto
termination
proof (relation "measure length")
  show "wf (measure length)"
    by simp
qed (auto dest: lexString_shorter lexNumber_shorter)


text \<open>
  A member whose key the object already has overwrites the value and keeps the place of
  the key, as defining the property again does in JavaScript.
\<close>

definition setMember :: "(jsstring \<times> json) list \<Rightarrow> jsstring \<times> json \<Rightarrow> (jsstring \<times> json) list" where
  "setMember kvs kv =
     (if fst kv \<in> fst ` set kvs then map (\<lambda>p. if fst p = fst kv then kv else p) kvs
      else kvs @ [kv])"

text \<open>
  The grammar of values over tokens. Each test \<open>length r < length ts\<close> holds whenever
  it is reached (\<open>parseValue\<close> consumes a token); it makes the recursion visibly
  well-founded.
\<close>

function parseValue :: "token list \<Rightarrow> (json \<times> token list) option"
  and parseElements :: "token list \<Rightarrow> (json list \<times> token list) option"
  and parseMembers :: "token list \<Rightarrow> ((jsstring \<times> json) list \<times> token list) option" where
  "parseValue [] = None"
| "parseValue (t # ts) =
     (case t of
        TNull \<Rightarrow> Some (JNull, ts)
      | TTrue \<Rightarrow> Some (JBool True, ts)
      | TFalse \<Rightarrow> Some (JBool False, ts)
      | TNumber n \<Rightarrow> Some (JNumber n, ts)
      | TString str \<Rightarrow> Some (JString str, ts)
      | TLBracket \<Rightarrow>
          (case ts of
             TRBracket # r \<Rightarrow> Some (JArray [], r)
           | _ \<Rightarrow> (case parseElements ts of None \<Rightarrow> None | Some (vs, r) \<Rightarrow> Some (JArray vs, r)))
      | TLBrace \<Rightarrow>
          (case ts of
             TRBrace # r \<Rightarrow> Some (JObject [], r)
           | _ \<Rightarrow>
               (case parseMembers ts of
                  None \<Rightarrow> None
                | Some (kvs, r) \<Rightarrow> Some (JObject (foldl setMember [] kvs), r)))
      | _ \<Rightarrow> None)"
| "parseElements ts =
     (case parseValue ts of
        None \<Rightarrow> None
      | Some (v, r) \<Rightarrow>
          (case r of
             TComma # r1 \<Rightarrow>
               if length r1 < length ts then
                 (case parseElements r1 of None \<Rightarrow> None | Some (vs, r2) \<Rightarrow> Some (v # vs, r2))
               else None
           | TRBracket # r1 \<Rightarrow> Some ([v], r1)
           | _ \<Rightarrow> None))"
| "parseMembers ts =
     (case ts of
        TString k # TColon # r \<Rightarrow>
          (case parseValue r of
             None \<Rightarrow> None
           | Some (v, r1) \<Rightarrow>
               (case r1 of
                  TComma # r2 \<Rightarrow>
                    if length r2 < length ts then
                      (case parseMembers r2 of None \<Rightarrow> None | Some (kvs, r3) \<Rightarrow> Some ((k, v) # kvs, r3))
                    else None
                | TRBrace # r2 \<Rightarrow> Some ([(k, v)], r2)
                | _ \<Rightarrow> None))
      | _ \<Rightarrow> None)"
  by pat_completeness auto
termination
proof (relation "measure (\<lambda>x. case x of Inl ts \<Rightarrow> 2 * length ts
                                      | Inr (Inl ts) \<Rightarrow> 2 * length ts + 1
                                      | Inr (Inr ts) \<Rightarrow> 2 * length ts + 1)")
  show "wf (measure (\<lambda>x. case x of Inl ts \<Rightarrow> 2 * length ts
                                      | Inr (Inl ts) \<Rightarrow> 2 * length ts + 1
                                      | Inr (Inr ts) \<Rightarrow> 2 * length ts + 1))"
    by simp
qed simp_all

definition JSON_parse :: "jsstring \<Rightarrow> json option" where
  "JSON_parse text =
     (case tokenize text of
        None \<Rightarrow> None
      | Some ts \<Rightarrow> (case parseValue ts of Some (v, []) \<Rightarrow> Some v | _ \<Rightarrow> None))"

section \<open>The helper functions of the backend (api/index.js, backend/server.js)\<close>

text \<open>\<open>/(\{[\s\S]*\}|\[[\s\S]*\])/\<close>\<close>

definition jsonSpanRe :: regex where
  "jsonSpanRe =
     Alt (Seq (Chars (\<lambda>c. c = 123)) (Seq (Rep 0 None (\<lambda>c. True)) (Chars (\<lambda>c. c = 125))))
         (Seq (Chars (\<lambda>c. c = 91)) (Seq (Rep 0 None (\<lambda>c. True)) (Chars (\<lambda>c. c = 93))))"

text \<open>
  \<open>extractJSON\<close>. The JavaScript value \<open>null\<close> that it returns when nothing parses is
  \<open>JNull\<close>.
\<close>

definition extractJSON :: "jsstring \<Rightarrow> json" where
  "extractJSON text =
     (case JSON_parse text of
        Some v \<Rightarrow> v
      | None \<Rightarrow>
          (case regexExec jsonSpanRe text of
             Some m \<Rightarrow> (case JSON_parse m of Some v \<Rightarrow> v | None \<Rightarrow> JNull)
           | None \<Rightarrow> JNull))"

text \<open>\<open>/[a-zA-Z0-9._%+-]+@[a-zA-Z0-9.-]+\.[a-z]{2,}/\<close>\<close>

definition emailLocal :: "nat \<Rightarrow> bool" where
  "emailLocal c \<longleftrightarrow>
     isLower c \<or> isUpper c \<or> isDigit c \<or> c = 46 \<or> c = 95 \<or> c = 37 \<or> c = 43 \<or> c = 45"

definition emailDomain :: "nat \<Rightarrow> bool" where
  "emailDomain c \<longleftrightarrow> isLower c \<or> isUpper c \<or> isDigit c \<or> c = 46 \<or> c = 45"

definition emailRe :: regex where
  "emailRe =
     Seq (Rep 1 None emailLocal)
       (Seq (Chars (\<lambda>c. c = 64))
          (Seq (Rep 1 None emailDomain)
             (Seq (Chars (\<lambda>c. c = 46)) (Rep 2 None isLower))))"

definition extractEmail :: "jsstring \<Rightarrow> jsstring option" where
  "extractEmail text = regexExec emailRe text"







text \<open>
  \<open>extractName\<close>. \<open>/\r?\n/\<close> separates the lines; \<open>/resume/i\<close> and \<open>/[A-Za-z]/\<close>
  are the two tests. Without the \<open>u\<close> flag, the \<open>i\<close> flag relates an ASCII letter only
  to its other case.
\<close>

definition lineBreakRe :: regex where
  "lineBreakRe = Seq (Rep 0 (Some 1) (\<lambda>c. c = 13)) (Chars (\<lambda>c. c = 10))"

definition ignoreCase :: "nat \<Rightarrow> nat \<Rightarrow> bool" where
  "ignoreCase l c \<longleftrightarrow> c = l \<or> c + 32 = l"

definition resumeRe :: regex where
  "resumeRe =
     Seq (Chars (ignoreCase 114))
       (Seq (Chars (ignoreCase 101))
          (Seq (Chars (ignoreCase 115))
             (Seq (Chars (ignoreCase 117))
                (Seq (Chars (ignoreCase 109)) (Chars (ignoreCase 101))))))"

definition letterRe :: regex where
  "letterRe = Chars (\<lambda>c. isUpper c \<or> isLower c)"

definition nameLines :: "jsstring \<Rightarrow> jsstring list" where
  "nameLines text = filter (\<lambda>l. l \<noteq> []) (map trim (regexSplit lineBreakRe [] text))"

definition nameLike :: "jsstring \<Rightarrow> bool" where
  "nameLike s \<longleftrightarrow>
     \<not> regexTest resumeRe s \<and> regexTest letterRe s \<and> length (splitOn 32 [] s) \<le> 4"

text \<open>The loop \<open>for (let i = 0; i < Math.min(6, lines.length); i++)\<close>.\<close>

function nameLoop :: "jsstring list \<Rightarrow> nat \<Rightarrow> jsstring option" where
  "nameLoop lines i =
     (if i < min 6 (length lines) then
        (if nameLike (lines ! i) then Some (lines ! i) else nameLoop lines (i + 1))
      else None)"
  by pat_completeness auto
termination
  by (relation "measure (\<lambda>(lines, i). min 6 (length lines) - i)") auto

definition extractName :: "jsstring \<Rightarrow> jsstring option" where
  "extractName text = nameLoop (nameLines text) 0"

section \<open>The route POST /api/grade-answer\<close>

text \<open>
  The body of the request as \<open>express.json()\<close> leaves it in \<open>req.body\<close> (\<open>None\<close>:
  \<open>undefined\<close>), the reading of a property of it, and the truth value that \<open>!\<close> and
  \<open>||\<close> give a JavaScript value. A number is falsy when it is zero, and the double for
  a value is zero when the value is at most half of the least positive double,
  2 to the power -1074, in magnitude (rounding is to the nearest double, a tie to the one
  with the even significand): \<open>1e-400\<close> is falsy, as \<open>0\<close> is.
\<close>

fun getProp :: "json \<Rightarrow> jsstring \<Rightarrow> json option" where
  "getProp (JObject kvs) k = map_of kvs k"
| "getProp v k = None"

definition roundsToZero :: "rat \<Rightarrow> bool" where
  "roundsToZero n \<longleftrightarrow> \<bar>n\<bar> \<le> 1 / 2 ^ 1075"

fun truthy :: "json \<Rightarrow> bool" where
  "truthy JNull = False"
| "truthy (JBool b) = b"
| "truthy (JNumber n) = (\<not> roundsToZero n)"
| "truthy (JString s) = (s \<noteq> [])"
| "truthy (JArray vs) = True"
| "truthy (JObject kvs) = True"

text \<open>
  The template literal of the prompt turns the two values into strings. For a value that
  \<open>JSON.parse\<close> has built this throws a \<open>TypeError\<close> in one case only: an object with a
  member named \<open>toString\<close>, which is then not a function, while
  \<open>Object.prototype.valueOf\<close> returns the object itself. Any other object gives
  \<open>[object Object]\<close>, whatever its members hold. An array is joined, and \<open>join\<close>
  turns each element other than \<open>null\<close> into a string in the same way.
  \<open>interpolates v\<close>: the conversion of \<open>v\<close> meets no such object.

  The conversion of an array inside an array is a call inside a call, so that arrays nested
  some thousands deep exhaust the call stack (a \<open>RangeError\<close>); how deep is a matter of
  the engine. The handlers below take a predicate \<open>stack\<close> for it: \<open>stack v\<close> says
  that the call stack suffices for the conversion of \<open>v\<close>.
\<close>

fun interpolates :: "json \<Rightarrow> bool" where
  "interpolates (JObject kvs) = (js ''toString'' \<notin> fst ` set kvs)"
| "interpolates (JArray vs) = (\<forall>v \<in> set vs. interpolates v)"
| "interpolates v = True"

datatype response = Response nat json

definition errorBody :: "string \<Rightarrow> json" where
  "errorBody msg = JObject [(js ''error'', JString (js msg))]"

text \<open>
  The handler of api/index.js. \<open>generateContent q a\<close> is the text of the model's reply to
  the prompt built from the question \<open>q\<close> and the answer \<open>a\<close> (\<open>None\<close> when the call
  throws). The result is the response together with the calls made to the model, each
  recorded by the two values its prompt is built from. Destructuring \<open>req.body\<close> throws
  when it is \<open>undefined\<close> or \<open>null\<close>, and building the prompt throws when one of the
  two values cannot be turned into a string (\<open>interpolates\<close>, \<open>stack\<close>); the
  \<open>catch\<close> turns both into the status 500, and the model has not been called.
\<close>

definition gradeAnswer ::
  "(json \<Rightarrow> bool) \<Rightarrow> (json \<Rightarrow> json \<Rightarrow> jsstring option) \<Rightarrow> json option
   \<Rightarrow> response \<times> (json \<times> json) list" where
  "gradeAnswer stack generateContent body =
     (case body of
        None \<Rightarrow> (Response 500 (errorBody ''Gemini grading failed''), [])
      | Some b \<Rightarrow>
          if b = JNull then (Response 500 (errorBody ''Gemini grading failed''), [])
          else
            (case (getProp b (js ''question''), getProp b (js ''answer'')) of
               (Some q, Some a) \<Rightarrow>
                 if \<not> truthy q \<or> \<not> truthy a then (Response 400 (errorBody ''Missing data''), [])
                 else if \<not> interpolates q \<or> \<not> stack q \<or> \<not> interpolates a \<or> \<not> stack a
                 then (Response 500 (errorBody ''Gemini grading failed''), [])
                 else
                   (case generateContent q a of
                      None \<Rightarrow> (Response 500 (errorBody ''Gemini grading failed''), [(q, a)])
                    | Some reply \<Rightarrow>
                        if \<not> truthy (extractJSON reply)
                        then (Response 500 (errorBody ''Gemini grading failed''), [(q, a)])
                        else (Response 200 (extractJSON reply), [(q, a)]))
             | _ \<Rightarrow> (Response 400 (errorBody ''Missing data''), [])))"

text \<open>
  The handler of backend/server.js: \<open>req.body || {}\<close> is destructured, and the messages
  differ.
\<close>

definition gradeAnswerServer ::
  "(json \<Rightarrow> bool) \<Rightarrow> (json \<Rightarrow> json \<Rightarrow> jsstring option) \<Rightarrow> json option
   \<Rightarrow> response \<times> (json \<times> json) list" where
  "gradeAnswerServer stack generateContent body =
     (let b = (case body of None \<Rightarrow> JObject [] | Some v \<Rightarrow> if truthy v then v else JObject []) in
      case (getProp b (js ''question''), getProp b (js ''answer'')) of
        (Some q, Some a) \<Rightarrow>
          if \<not> truthy q \<or> \<not> truthy a
          then (Response 400 (errorBody ''Missing question or answer''), [])
          else if \<not> interpolates q \<or> \<not> stack q \<or> \<not> interpolates a \<or> \<not> stack a
          then (Response 500 (errorBody ''Gemini grading failed''), [])
          else
            (case generateContent q a of
               None \<Rightarrow> (Response 500 (errorBody ''Gemini grading failed''), [(q, a)])
             | Some reply \<Rightarrow>
                 if \<not> truthy (extractJSON reply)
                 then (Response 500 (errorBody ''Failed to parse AI grading output''), [(q, a)])
                 else (Response 200 (extractJSON reply), [(q, a)]))
      | _ \<Rightarrow> (Response 400 (errorBody ''Missing question or answer''), []))"

section \<open>The interview page: data model (frontend/src/pages/Interviewee.js)\<close>

datatype difficulty = Easy | Medium | Hard

text \<open>\<open>const difficultySeconds = { easy: 20, medium: 60, hard: 120 }\<close>\<close>

fun difficultySeconds :: "difficulty \<Rightarrow> int" where
  "difficultySeconds Easy = 20"
| "difficultySeconds Medium = 60"
| "difficultySeconds Hard = 120"

record question =
  q_id :: jsstring
  q_difficulty :: difficulty
  q_text :: jsstring

record answer_rec =
  questionId :: jsstring
  questionText :: jsstring
  difficulty :: difficulty
  responseText :: jsstring
  timeTakenSeconds :: int
  autoSubmitted :: bool
  score :: "int option"
  feedback :: "jsstring option"

text \<open>
  The stored timer. \<open>pauseActive\<close> and \<open>resumeActive\<close> build it by spreading
  \<open>c.timer || {}\<close>, so \<open>questionIndex\<close> and \<open>remaining\<close> can be absent
  (\<open>None\<close> is JavaScript's \<open>undefined\<close>). Times are milliseconds, as \<open>Date.now()\<close>
  returns them.
\<close>

record timer_rec =
  t_questionIndex :: "nat option"
  t_remaining :: "int option"
  t_lastUpdated :: int

text \<open>A candidate id \<open>'c' + Date.now()\<close> is modelled by the number after the letter.\<close>

record candidate =
  c_id :: nat
  c_name :: jsstring
  c_email :: jsstring
  c_phone :: jsstring
  c_resumeText :: jsstring
  c_createdAt :: jsstring
  c_currentIndex :: nat
  c_answers :: "answer_rec list"
  c_finalScore :: "int option"
  c_summary :: "jsstring option"
  c_timer :: "timer_rec option"
  c_paused :: bool
  c_questionsLength :: nat
  c_questions :: "question list"

record missing_fields =
  m_name :: "jsstring option"
  m_email :: "jsstring option"
  m_phone :: "jsstring option"
  m_id :: "nat option"

text \<open>
  The state of the component: one field for each \<open>useState\<close> variable, and
  \<open>timerRef\<close>, which is \<open>True\<close> while the interval held in \<open>timerRef.current\<close> is live.
  The callback of the interval calls the \<open>handleSubmit\<close> of the render in which
  \<open>startTimer\<close> was made, and that render is the one after which the effect started the
  timer, since both depend on \<open>questions\<close>, \<open>currentIndex\<close>, \<open>active\<close> and
  \<open>candidates\<close>. \<open>answer\<close> and \<open>remaining\<close> can change without a new timer:
  \<open>heldAnswer\<close> and \<open>heldRemaining\<close> are their values in that render, which is what the
  interval's \<open>handleSubmit\<close> reads.
\<close>

record ui =
  candidates :: "candidate list"
  active :: "nat option"
  questions :: "question list"
  currentIndex :: nat
  remaining :: int
  answer :: jsstring
  showModal :: bool
  missingFields :: missing_fields
  loading :: bool
  uploading :: bool
  fetchingQuestions :: bool
  submitting :: bool
  timerRef :: bool
  heldAnswer :: jsstring
  heldRemaining :: int

section \<open>The interview page: operations\<close>

text \<open>\<open>xs[i]\<close> of JavaScript: \<open>undefined\<close> out of range.\<close>

definition at_index :: "'a list \<Rightarrow> nat \<Rightarrow> 'a option" where
  "at_index xs i = (if i < length xs then Some (xs ! i) else None)"

definition findCandidate :: "candidate list \<Rightarrow> nat \<Rightarrow> candidate option" where
  "findCandidate cs i = find (\<lambda>c. c_id c = i) cs"

text \<open>
  \<open>updateCandidate(id, updater)\<close>: \<open>setCandidates(prev => prev.map(c => c.id === id ? updater(c) : c))\<close>.
  An object passed as updater is the function that overwrites the object's fields.
\<close>

definition updateCandidate :: "nat \<Rightarrow> (candidate \<Rightarrow> candidate) \<Rightarrow> ui \<Rightarrow> ui" where
  "updateCandidate i f s =
     s\<lparr>candidates := map (\<lambda>c. if c_id c = i then f c else c) (candidates s)\<rparr>"

text \<open>
  \<open>startTimer\<close>, up to the creation of the interval: the previous interval is cleared,
  and a new one is started when the current question and an active candidate exist.
\<close>

definition startTimer :: "ui \<Rightarrow> ui" where
  "startTimer s =
     (let s1 = s\<lparr>timerRef := False\<rparr> in
      case at_index (questions s) (currentIndex s) of
        None \<Rightarrow> s1
      | Some q \<Rightarrow>
          (case active s of
             None \<Rightarrow> s1
           | Some a \<Rightarrow>
               let initialRemaining =
                     (case findCandidate (candidates s) a of
                        None \<Rightarrow> difficultySeconds (q_difficulty q)
                      | Some cand \<Rightarrow>
                          (case c_timer cand of
                             None \<Rightarrow> difficultySeconds (q_difficulty q)
                           | Some t \<Rightarrow>
                               (case t_remaining t of
                                  None \<Rightarrow> difficultySeconds (q_difficulty q)
                                | Some r \<Rightarrow> r)))
               in s1\<lparr>remaining := initialRemaining, timerRef := True,
                     heldAnswer := answer s, heldRemaining := remaining s\<rparr>))"

text \<open>
  The effect on \<open>[questions, currentIndex, active, startTimer, candidates]\<close>: its cleanup
  clears the interval, then the timer is started unless the active candidate is paused.
  It runs after every render in which one of these changed; \<open>updateCandidate\<close> always
  makes a new \<open>candidates\<close> array, so it runs after every operation that calls it.
\<close>

definition timerEffect :: "ui \<Rightarrow> ui" where
  "timerEffect s =
     (if questions s \<noteq> [] \<and> active s \<noteq> None then
        (case findCandidate (candidates s) (the (active s)) of
           None \<Rightarrow> startTimer s
         | Some cand \<Rightarrow> if c_paused cand then s\<lparr>timerRef := False\<rparr> else startTimer s)
      else s\<lparr>timerRef := False\<rparr>)"

text \<open>\<open>pauseActive\<close>, at the time \<open>now\<close> that \<open>Date.now()\<close> returns.\<close>

definition pauseTimer :: "int \<Rightarrow> int \<Rightarrow> timer_rec option \<Rightarrow> timer_rec" where
  "pauseTimer rem now t =
     (case t of
        None \<Rightarrow> \<lparr>t_questionIndex = None, t_remaining = Some rem, t_lastUpdated = now\<rparr>
      | Some t0 \<Rightarrow> t0\<lparr>t_remaining := Some rem, t_lastUpdated := now\<rparr>)"

definition pauseActive :: "int \<Rightarrow> ui \<Rightarrow> ui" where
  "pauseActive now s =
     (case active s of
        None \<Rightarrow> s
      | Some a \<Rightarrow>
          timerEffect
            (updateCandidate a
               (\<lambda>c. c\<lparr>c_paused := True, c_timer := Some (pauseTimer (remaining s) now (c_timer c))\<rparr>)
               (s\<lparr>timerRef := False\<rparr>)))"

text \<open>\<open>resumeActive\<close>: the update of the candidate, then \<open>startTimer()\<close>, then the effect.\<close>

definition resumeTimer :: "int \<Rightarrow> timer_rec option \<Rightarrow> timer_rec" where
  "resumeTimer now t =
     (case t of
        None \<Rightarrow> \<lparr>t_questionIndex = None, t_remaining = None, t_lastUpdated = now\<rparr>
      | Some t0 \<Rightarrow> t0\<lparr>t_lastUpdated := now\<rparr>)"

definition resumeActive :: "int \<Rightarrow> ui \<Rightarrow> ui" where
  "resumeActive now s =
     (case active s of
        None \<Rightarrow> s
      | Some a \<Rightarrow>
          timerEffect
            (updateCandidate a
               (\<lambda>c. c\<lparr>c_paused := False, c_timer := Some (resumeTimer now (c_timer c))\<rparr>)
               (startTimer s)))"

text \<open>
  \<open>openCandidate(candidateId, resume, candidatesList)\<close>. \<open>fetched\<close> is what the request to
  \<open>/api/generate-questions\<close> gives as \<open>data.questions\<close> (\<open>None\<close> when the request or its
  decoding throws, or the field is missing); \<open>now1\<close> and \<open>now2\<close> are the two readings of
  \<open>Date.now()\<close>.
\<close>

definition resumeIndex :: "bool \<Rightarrow> candidate \<Rightarrow> nat" where
  "resumeIndex resume cand =
     (if resume then (if c_currentIndex cand \<noteq> 0 then c_currentIndex cand else length (c_answers cand))
      else 0)"

definition reconstructRemaining :: "question list \<Rightarrow> nat \<Rightarrow> candidate \<Rightarrow> int \<Rightarrow> int" where
  "reconstructRemaining qs idx cand now1 =
     (let rem0 = (case at_index qs idx of None \<Rightarrow> 0 | Some q \<Rightarrow> difficultySeconds (q_difficulty q)) in
      case c_timer cand of
        None \<Rightarrow> rem0
      | Some t \<Rightarrow>
          (case t_remaining t of
             None \<Rightarrow> rem0
           | Some r \<Rightarrow>
               if t_questionIndex t = Some idx then
                 (let elapsed = (now1 - t_lastUpdated t) div 1000 in max 0 (r - elapsed))
               else rem0))"

definition openCandidate ::
  "nat \<Rightarrow> bool \<Rightarrow> candidate list option \<Rightarrow> question list option \<Rightarrow> int \<Rightarrow> int \<Rightarrow> ui \<Rightarrow> ui" where
  "openCandidate candidateId resume candidatesList fetched now1 now2 s =
     (let currentCandidates = (case candidatesList of None \<Rightarrow> candidates s | Some l \<Rightarrow> l) in
      case findCandidate currentCandidates candidateId of
        None \<Rightarrow> s
      | Some cand \<Rightarrow>
          (let failed = s\<lparr>loading := False, fetchingQuestions := False\<rparr>;
               continue = (\<lambda>qs s1.
                 let idx = resumeIndex resume cand;
                     rem = reconstructRemaining qs idx cand now1
                 in timerEffect
                      (updateCandidate candidateId
                         (\<lambda>c. c\<lparr>c_timer := Some \<lparr>t_questionIndex = Some idx, t_remaining = Some rem,
                                                  t_lastUpdated = now2\<rparr>,
                                 c_paused := False\<rparr>)
                         (s1\<lparr>questions := qs, currentIndex := min idx (length qs - 1),
                             remaining := rem, active := Some candidateId,
                             loading := False, fetchingQuestions := False\<rparr>)))
           in if c_questions cand \<noteq> [] then continue (c_questions cand) s
              else (case fetched of
                      None \<Rightarrow> failed
                    | Some qs \<Rightarrow>
                        if length qs \<noteq> 6 then failed
                        else continue qs
                               (updateCandidate candidateId
                                  (\<lambda>c. c\<lparr>c_questions := qs, c_questionsLength := length qs\<rparr>) s))))"

definition handleOpenCandidate :: "nat \<Rightarrow> bool \<Rightarrow> question list option \<Rightarrow> int \<Rightarrow> int \<Rightarrow> ui \<Rightarrow> ui" where
  "handleOpenCandidate i resume fetched now1 now2 s = openCandidate i resume None fetched now1 now2 s"

section \<open>Sample data\<close>

text \<open>Six questions as the backend is asked to give them: two of each difficulty.\<close>

definition sampleQuestion :: "string \<Rightarrow> difficulty \<Rightarrow> question" where
  "sampleQuestion i d = \<lparr>q_id = js i, q_difficulty = d, q_text = js ''Explain the topic.''\<rparr>"

definition sixQuestions :: "question list" where
  "sixQuestions =
     [sampleQuestion ''q1'' Easy, sampleQuestion ''q2'' Easy,
      sampleQuestion ''q3'' Medium, sampleQuestion ''q4'' Medium,
      sampleQuestion ''q5'' Hard, sampleQuestion ''q6'' Hard]"

text \<open>The candidate that \<open>handleUploadFile\<close> creates, with the questions already generated.\<close>

definition sampleCandidate :: candidate where
  "sampleCandidate =
     \<lparr>c_id = 7, c_name = js ''Ada'', c_email = js ''ada@example.com'', c_phone = js ''5551234567'',
      c_resumeText = js ''cv.pdf'', c_createdAt = js ''2025-01-01T00:00:00.000Z'',
      c_currentIndex = 0, c_answers = [], c_finalScore = None, c_summary = None,
      c_timer = None, c_paused = False, c_questionsLength = 6, c_questions = sixQuestions\<rparr>"

text \<open>The component as it mounts, with the given candidates loaded from storage.\<close>

definition mountedWith :: "candidate list \<Rightarrow> ui" where
  "mountedWith cs =
     \<lparr>candidates = cs, active = None, questions = [], currentIndex = 0, remaining = 0,
      answer = [], showModal = False,
      missingFields = \<lparr>m_name = None, m_email = None, m_phone = None, m_id = None\<rparr>,
      loading = False, uploading = False, fetchingQuestions = False, submitting = False,
      timerRef = False, heldAnswer = [], heldRemaining = 0\<rparr>"

text \<open>
  A candidate stored while the third question (index 2, medium) was running with 45 seconds
  left, last written at time 1000000; and the page showing that candidate.
\<close>

definition storedMidway :: candidate where
  "storedMidway =
     sampleCandidate\<lparr>c_currentIndex := 2,
       c_timer := Some \<lparr>t_questionIndex = Some 2, t_remaining = Some 45, t_lastUpdated = 1000000\<rparr>\<rparr>"

definition runningMidway :: ui where
  "runningMidway =
     (mountedWith [storedMidway])\<lparr>active := Some 7, questions := sixQuestions, currentIndex := 2,
        remaining := 45, timerRef := True, heldRemaining := 45\<rparr>"

text \<open>
  Requests to the grading route, a model that always gives the same reply, and a call stack
  that suffices for every value.
\<close>

definition sampleReply :: jsstring where
  "sampleReply = js ''{\"score\":7,\"feedback\":\"Good.\"}''"

definition sampleModel :: "json \<Rightarrow> json \<Rightarrow> jsstring option" where
  "sampleModel q a = Some sampleReply"

definition sampleStack :: "json \<Rightarrow> bool" where
  "sampleStack v = True"

definition gradeRequest :: "json \<Rightarrow> json" where
  "gradeRequest a = JObject [(js ''question'', JString (js ''What is JSX?'')), (js ''answer'', a)]"

definition gradeRequestNoAnswer :: json where
  "gradeRequestNoAnswer = JObject [(js ''question'', JString (js ''What is JSX?''))]"

section \<open>The language of a regular expression\<close>

text \<open>
  What a regular expression matches, without regard to the order of the search: the
  specification against which the matcher is proved.
\<close>

fun lang :: "regex \<Rightarrow> jsstring set" where
  "lang (Chars p) = {[c] | c. p c}"
| "lang (Rep lo hi p) =
     {w. (\<forall>c \<in> set w. p c) \<and> lo \<le> length w \<and> (case hi of None \<Rightarrow> True | Some h \<Rightarrow> length w \<le> h)}"
| "lang (Seq a b) = {u @ v | u v. u \<in> lang a \<and> v \<in> lang b}"
| "lang (Alt a b) = lang a \<union> lang b"
| "lang (Opt a) = lang a \<union> {[]}"

text \<open>The longest repetition that a quantified class can match at the start of a string.\<close>

definition repMax :: "nat option \<Rightarrow> (nat \<Rightarrow> bool) \<Rightarrow> jsstring \<Rightarrow> nat" where
  "repMax hi p s = (case hi of None \<Rightarrow> length (takeWhile p s) | Some h \<Rightarrow> min h (length (takeWhile p s)))"

section \<open>The span that extractJSON cuts out, described without the matcher\<close>

text \<open>
  The description of the span in words: at the first position that holds \<open>{\<close> with a
  \<open>}\<close> somewhere after it, or \<open>[\<close> with a \<open>]\<close> somewhere after it, the text from
  there to the last such closing character.
\<close>

definition lastIndexOf :: "nat \<Rightarrow> jsstring \<Rightarrow> nat option" where
  "lastIndexOf c cs = find (\<lambda>k. cs ! k = c) (rev [0..<length cs])"

fun bracketSpanAt :: "jsstring \<Rightarrow> jsstring option" where
  "bracketSpanAt [] = None"
| "bracketSpanAt (c # cs) =
     (if c = 123 then map_option (\<lambda>k. c # take (Suc k) cs) (lastIndexOf 125 cs)
      else if c = 91 then map_option (\<lambda>k. c # take (Suc k) cs) (lastIndexOf 93 cs)
      else None)"

fun firstBracketSpan :: "jsstring \<Rightarrow> jsstring option" where
  "firstBracketSpan [] = None"
| "firstBracketSpan (c # cs) =
     (case bracketSpanAt (c # cs) of Some m \<Rightarrow> Some m | None \<Rightarrow> firstBracketSpan cs)"

section \<open>The forms of a phone number, in words\<close>



definition occursIn :: "jsstring \<Rightarrow> jsstring \<Rightarrow> bool" where
  "occursIn w s \<longleftrightarrow> (\<exists>pre post. s = pre @ w @ post)"




section \<open>The interview page: submitting an answer and the countdown\<close>

text \<open>The response recorded when the time runs out on an empty answer box.\<close>

definition autoSubmittedText :: jsstring where
  "autoSubmittedText = js ''[AUTO SUBMITTED]''"

text \<open>
  \<open>handleSubmit\<close> is asynchronous. What it keeps from its closure across the two requests
  (grading, final summary) is a \<open>pending\<close> record.
\<close>

record pending =
  p_active :: nat
  p_question :: question
  p_responseText :: jsstring
  p_currentIndex :: nat
  p_questions :: "question list"

text \<open>
  \<open>handleSubmit(auto)\<close> up to its first \<open>await\<close>. The callback reads \<open>active\<close>,
  \<open>candidates\<close>, \<open>questions\<close>, \<open>currentIndex\<close>, \<open>answer\<close> and \<open>remaining\<close> from the
  render \<open>cl\<close> it closes over, and its updates apply to the current state \<open>s\<close>. The
  effect runs after it, since \<open>candidates\<close> has changed.
\<close>

definition handleSubmitIn :: "ui \<Rightarrow> bool \<Rightarrow> ui \<Rightarrow> ui \<times> pending option" where
  "handleSubmitIn cl auto s =
     (case active cl of
        None \<Rightarrow> (s, None)
      | Some a \<Rightarrow>
          (case findCandidate (candidates cl) a of
             None \<Rightarrow> (s, None)
           | Some cand \<Rightarrow>
               (case at_index (questions cl) (currentIndex cl) of
                  None \<Rightarrow> (s\<lparr>timerRef := False\<rparr>, None)
                | Some q \<Rightarrow>
                    let responseText = (if trim (answer cl) = [] \<and> auto then autoSubmittedText else answer cl);
                        timeTaken = difficultySeconds (q_difficulty q) - remaining cl;
                        newAnswer =
                          \<lparr>questionId = q_id q, questionText = q_text q, difficulty = q_difficulty q,
                           responseText = responseText, timeTakenSeconds = timeTaken,
                           autoSubmitted = auto, score = None, feedback = None\<rparr>
                    in (timerEffect
                          (updateCandidate a
                             (\<lambda>c. c\<lparr>c_answers := c_answers c @ [newAnswer],
                                     c_currentIndex := c_currentIndex c + 1, c_timer := None\<rparr>)
                             (s\<lparr>timerRef := False, answer := [], submitting := True\<rparr>)),
                        Some \<lparr>p_active = a, p_question = q, p_responseText = responseText,
                              p_currentIndex = currentIndex cl, p_questions = questions cl\<rparr>))))"

definition handleSubmit :: "bool \<Rightarrow> ui \<Rightarrow> ui \<times> pending option" where
  "handleSubmit auto s = handleSubmitIn s auto s"

text \<open>
  The submit button calls \<open>handleSubmit(false)\<close>; it is disabled when the trimmed answer is
  empty, no time remains, a submission is in progress or the active candidate is paused.
\<close>

definition activePaused :: "ui \<Rightarrow> bool" where
  "activePaused s =
     (case active s of
        None \<Rightarrow> False
      | Some a \<Rightarrow> (case findCandidate (candidates s) a of None \<Rightarrow> False | Some c \<Rightarrow> c_paused c))"

definition submitDisabled :: "ui \<Rightarrow> bool" where
  "submitDisabled s \<longleftrightarrow> trim (answer s) = [] \<or> remaining s \<le> 0 \<or> submitting s \<or> activePaused s"

definition clickSubmit :: "ui \<Rightarrow> ui \<times> pending option" where
  "clickSubmit s = (if submitDisabled s then (s, None) else handleSubmit False s)"

text \<open>Typing into the answer box: \<open>setAnswer(e.target.value)\<close>.\<close>

definition typeAnswer :: "jsstring \<Rightarrow> ui \<Rightarrow> ui" where
  "typeAnswer v s = s\<lparr>answer := v\<rparr>"

text \<open>
  One firing of the interval that \<open>startTimer\<close> created, at the time \<open>now\<close>. The updater of
  \<open>setRemaining\<close> stores the timer, and at \<open>next <= 0\<close> calls \<open>handleSubmit(true)\<close>
  before it returns 0; \<open>handleSubmit\<close> therefore still sees the remaining time of its
  render, and the answer box as it was in that render.
\<close>

definition tick :: "int \<Rightarrow> ui \<Rightarrow> ui \<times> pending option" where
  "tick now s =
     (if \<not> timerRef s then (s, None)
      else
        (case active s of
           None \<Rightarrow> (s, None)
         | Some a \<Rightarrow>
             let next = remaining s - 1;
                 s1 = updateCandidate a
                        (\<lambda>c. c\<lparr>c_timer := Some \<lparr>t_questionIndex = Some (currentIndex s),
                                                 t_remaining = Some (max 0 next),
                                                 t_lastUpdated = now\<rparr>\<rparr>) s
             in if next \<le> 0 then
                  (case handleSubmitIn (s\<lparr>answer := heldAnswer s, remaining := heldRemaining s\<rparr>) True
                          (s1\<lparr>timerRef := False\<rparr>) of
                     (s2, p) \<Rightarrow> (timerEffect (s2\<lparr>remaining := 0\<rparr>), p))
                else (timerEffect (s1\<lparr>remaining := next\<rparr>), None)))"

text \<open>
  The rest of \<open>handleSubmit\<close> after the grading request. \<open>grade\<close> is \<open>None\<close> when the
  request throws, else the \<open>score\<close> and \<open>feedback\<close> fields of the reply. The result says
  whether the request for the final summary follows.
\<close>

definition setLastGrade :: "int option \<Rightarrow> jsstring option \<Rightarrow> answer_rec list \<Rightarrow> answer_rec list" where
  "setLastGrade sc fb as =
     (if as = [] then as else as[length as - 1 := (as ! (length as - 1))\<lparr>score := sc, feedback := fb\<rparr>])"

definition handleSubmitGraded ::
  "pending \<Rightarrow> (int option \<times> jsstring option) option \<Rightarrow> int \<Rightarrow> ui \<Rightarrow> ui \<times> bool" where
  "handleSubmitGraded p grade now s =
     (let s1 = (case grade of
                  None \<Rightarrow> s
                | Some (sc, fb) \<Rightarrow>
                    updateCandidate (p_active p) (\<lambda>c. c\<lparr>c_answers := setLastGrade sc fb (c_answers c)\<rparr>) s);
          nextIndex = p_currentIndex p + 1
      in case at_index (p_questions p) nextIndex of
           Some nextQ \<Rightarrow>
             (timerEffect
                (updateCandidate (p_active p)
                   (\<lambda>c. c\<lparr>c_timer := Some \<lparr>t_questionIndex = Some nextIndex,
                                            t_remaining = Some (difficultySeconds (q_difficulty nextQ)),
                                            t_lastUpdated = now\<rparr>,
                           c_paused := False\<rparr>)
                   (s1\<lparr>submitting := False, currentIndex := nextIndex,
                       remaining := difficultySeconds (q_difficulty nextQ)\<rparr>)),
              False)
         | None \<Rightarrow> ((case grade of None \<Rightarrow> s1 | Some g \<Rightarrow> timerEffect s1), True))"

text \<open>The end of \<open>handleSubmit\<close>, after the request for the final summary.\<close>

definition handleSubmitSummarized ::
  "pending \<Rightarrow> (int option \<times> jsstring option) option \<Rightarrow> ui \<Rightarrow> ui" where
  "handleSubmitSummarized p final s =
     (case final of
        None \<Rightarrow> s\<lparr>submitting := False\<rparr>
      | Some (fs, sm) \<Rightarrow>
          timerEffect
            (updateCandidate (p_active p)
               (\<lambda>c. c\<lparr>c_finalScore := fs, c_summary := sm, c_currentIndex := length (p_questions p)\<rparr>)
               (s\<lparr>submitting := False\<rparr>)))"

text \<open>
  \<open>handleUploadFile\<close>. \<open>parsed\<close> is the reply of \<open>/api/parse-resume\<close> (\<open>None\<close> when
  the request fails or the reply has an \<open>error\<close>), \<open>now\<close> the reading of \<open>Date.now()\<close>
  that names the candidate. The result says whether \<open>openCandidate(id, false, updated)\<close> has
  been scheduled; it is when no field is missing.
\<close>

definition orEmpty :: "jsstring option \<Rightarrow> jsstring" where
  "orEmpty v = (case v of None \<Rightarrow> [] | Some x \<Rightarrow> x)"

definition handleUploadFile ::
  "jsstring \<Rightarrow> (jsstring option \<times> jsstring option \<times> jsstring option) option \<Rightarrow> nat \<Rightarrow> jsstring \<Rightarrow> ui
   \<Rightarrow> ui \<times> bool" where
  "handleUploadFile fileName parsed now isoDate s =
     (case parsed of
        None \<Rightarrow> (s\<lparr>uploading := False\<rparr>, False)
      | Some (nm, em, ph) \<Rightarrow>
          let newCand =
                \<lparr>c_id = now, c_name = orEmpty nm, c_email = orEmpty em, c_phone = orEmpty ph,
                 c_resumeText = fileName, c_createdAt = isoDate, c_currentIndex = 0, c_answers = [],
                 c_finalScore = None, c_summary = None, c_timer = None, c_paused = False,
                 c_questionsLength = 0, c_questions = []\<rparr>;
              s1 = s\<lparr>candidates := candidates s @ [newCand], active := Some now, uploading := False\<rparr>
          in if orEmpty nm = [] \<or> orEmpty em = [] \<or> orEmpty ph = [] then
               (timerEffect
                  (s1\<lparr>missingFields :=
                        \<lparr>m_name = (if orEmpty nm = [] then Some [] else None),
                         m_email = (if orEmpty em = [] then Some [] else None),
                         m_phone = (if orEmpty ph = [] then Some [] else None),
                         m_id = Some now\<rparr>,
                      showModal := True\<rparr>),
                False)
             else (timerEffect s1, True))"

text \<open>The button of the summary card: \<open>Close Interview\<close>.\<close>

definition closeInterview :: "ui \<Rightarrow> ui" where
  "closeInterview s =
     timerEffect (s\<lparr>active := None, questions := [], currentIndex := 0, remaining := 0, answer := []\<rparr>)"

section \<open>A session from the upload to the end of the first countdown\<close>

text \<open>
  The page one second at a time: \<open>countdownState r now\<close> is the page while the first
  question of the sample candidate is open with \<open>r\<close> seconds left and nothing typed;
  \<open>uploaded\<close> and \<open>started\<close> are the states after the upload of a resume with all
  three contact fields and after the questions have arrived; \<open>tickTimes n\<close> lets the
  interval fire \<open>n\<close> times, one second apart.
\<close>

definition countdownState :: "int \<Rightarrow> int \<Rightarrow> ui" where
  "countdownState r now =
     (mountedWith
        [sampleCandidate\<lparr>c_timer := Some \<lparr>t_questionIndex = Some 0, t_remaining = Some r,
                                           t_lastUpdated = now\<rparr>\<rparr>])
       \<lparr>active := Some 7, questions := sixQuestions, remaining := r, timerRef := True,
         heldRemaining := r\<rparr>"

definition uploaded :: ui where
  "uploaded = fst (handleUploadFile (js ''cv.pdf'')
      (Some (Some (js ''Ada''), Some (js ''ada@example.com''), Some (js ''5551234567''))) 7
      (js ''2025-01-01T00:00:00.000Z'') (mountedWith []))"

definition started :: ui where
  "started = openCandidate 7 False (Some (candidates uploaded)) (Some sixQuestions) 1000 1001 uploaded"

fun tickTimes :: "nat \<Rightarrow> int \<Rightarrow> ui \<Rightarrow> ui" where
  "tickTimes 0 now s = s"
| "tickTimes (Suc n) now s = tickTimes n (now + 1000) (fst (tick now s))"

section \<open>A whole interview\<close>

text \<open>
  The candidate answers every question at once: \<open>answerRound\<close> types an answer, clicks
  the submit button and lets the grading reply arrive (score 7); \<open>sessionAfter n\<close> does
  \<open>n + 1\<close> such rounds, five seconds apart. \<open>interviewAt i\<close> is the page as question
  \<open>i\<close> opens, \<open>awaitingSummary\<close> the page after the sixth answer while the final
  summary is requested, \<open>completedPage\<close> the page once the summary has arrived.
\<close>

definition manualAnswer :: "question \<Rightarrow> answer_rec" where
  "manualAnswer q =
     \<lparr>questionId = q_id q, questionText = q_text q, difficulty = q_difficulty q,
      responseText = js ''An answer.'', timeTakenSeconds = 0, autoSubmitted = False,
      score = Some 7, feedback = Some (js ''Good.'')\<rparr>"

definition interviewAt :: "nat \<Rightarrow> int \<Rightarrow> ui" where
  "interviewAt i now =
     (mountedWith
        [sampleCandidate\<lparr>c_currentIndex := i, c_answers := map manualAnswer (take i sixQuestions),
           c_timer := Some \<lparr>t_questionIndex = Some i,
                              t_remaining = Some (difficultySeconds (q_difficulty (sixQuestions ! i))),
                              t_lastUpdated = now\<rparr>\<rparr>])
       \<lparr>active := Some 7, questions := sixQuestions, currentIndex := i,
         remaining := difficultySeconds (q_difficulty (sixQuestions ! i)), timerRef := True,
         heldRemaining := difficultySeconds (q_difficulty (sixQuestions ! i))\<rparr>"

definition answerRound :: "int \<Rightarrow> ui \<Rightarrow> (ui \<times> pending \<times> bool) option" where
  "answerRound now s =
     (case clickSubmit (typeAnswer (js ''An answer.'') s) of
        (s1, None) \<Rightarrow> None
      | (s1, Some p) \<Rightarrow>
          (case handleSubmitGraded p (Some (Some 7, Some (js ''Good.''))) now s1 of
             (s2, final) \<Rightarrow> Some (s2, p, final)))"

fun sessionAfter :: "nat \<Rightarrow> int \<Rightarrow> ui \<Rightarrow> (ui \<times> pending \<times> bool) option" where
  "sessionAfter 0 now s = answerRound now s"
| "sessionAfter (Suc n) now s =
     (case answerRound now s of
        None \<Rightarrow> None
      | Some (s1, p, final) \<Rightarrow> sessionAfter n (now + 5000) s1)"

definition pendingAt :: "nat \<Rightarrow> pending" where
  "pendingAt i =
     \<lparr>p_active = 7, p_question = sixQuestions ! i, p_responseText = js ''An answer.'',
      p_currentIndex = i, p_questions = sixQuestions\<rparr>"

definition awaitingSummary :: ui where
  "awaitingSummary =
     (mountedWith
        [sampleCandidate\<lparr>c_currentIndex := 6, c_answers := map manualAnswer sixQuestions\<rparr>])
       \<lparr>active := Some 7, questions := sixQuestions, currentIndex := 5, remaining := 120,
         submitting := True, timerRef := True, heldRemaining := 120\<rparr>"

definition completedPage :: ui where
  "completedPage =
     (mountedWith
        [sampleCandidate\<lparr>c_currentIndex := 6, c_answers := map manualAnswer sixQuestions,
           c_finalScore := Some 70, c_summary := Some (js ''Solid.'')\<rparr>])
       \<lparr>active := Some 7, questions := sixQuestions, currentIndex := 5, remaining := 120,
         timerRef := True, heldRemaining := 120\<rparr>"

section \<open>The name of a resume, in words\<close>

text \<open>
  The conditions on a line without the matcher: a string occurs in the line when case is
  ignored (\<open>containsFolded\<close>), the line has a letter \<open>A-Z\<close> or \<open>a-z\<close>, the lines
  of a text cut at line feeds, trimmed, the blank ones left out. \<open>claimedName\<close> is the
  function that the specification describes, which counts the tokens between whitespace;
  \<open>codeNameLike\<close> is the condition with the count that the code makes, of the space
  characters.
\<close>

definition lowerAscii :: "nat \<Rightarrow> nat" where
  "lowerAscii c = (if isUpper c then c + 32 else c)"

fun containsFolded :: "jsstring \<Rightarrow> jsstring \<Rightarrow> bool" where
  "containsFolded w [] = (w = [])"
| "containsFolded w (c # cs) \<longleftrightarrow>
     map lowerAscii (take (length w) (c # cs)) = w \<or> containsFolded w cs"

definition hasLetter :: "jsstring \<Rightarrow> bool" where
  "hasLetter s \<longleftrightarrow> list_ex (\<lambda>c. isUpper c \<or> isLower c) s"

definition trimmedLines :: "jsstring \<Rightarrow> jsstring list" where
  "trimmedLines text = filter (\<lambda>l. l \<noteq> []) (map trim (splitOn 10 [] text))"

fun splitWhere :: "(nat \<Rightarrow> bool) \<Rightarrow> jsstring \<Rightarrow> jsstring \<Rightarrow> jsstring list" where
  "splitWhere P cur [] = [rev cur]"
| "splitWhere P cur (c # cs) =
     (if P c then rev cur # splitWhere P [] cs else splitWhere P (c # cur) cs)"

definition whitespaceTokens :: "jsstring \<Rightarrow> jsstring list" where
  "whitespaceTokens s = filter (\<lambda>w. w \<noteq> []) (splitWhere isWhiteSpace [] s)"

definition claimedNameLike :: "jsstring \<Rightarrow> bool" where
  "claimedNameLike s \<longleftrightarrow>
     \<not> containsFolded (js ''resume'') s \<and> hasLetter s \<and> length (whitespaceTokens s) \<le> 4"

definition claimedName :: "jsstring \<Rightarrow> jsstring option" where
  "claimedName text = find claimedNameLike (take 6 (trimmedLines text))"

definition codeNameLike :: "jsstring \<Rightarrow> bool" where
  "codeNameLike s \<longleftrightarrow>
     \<not> containsFolded (js ''resume'') s \<and> hasLetter s \<and> count_list s 32 \<le> 3"

section \<open>An email address, in words\<close>

text \<open>
  An address \<open>local@domain.tld\<close>: a non-empty local part of letters, digits and
  \<open>._%+-\<close>, a non-empty domain of letters, digits, dots and hyphens, and after its last
  dot two or more lowercase letters. \<open>emailTailRe\<close> and \<open>emailHostRe\<close> name the end of
  the regular expression of \<open>extractEmail\<close>.
\<close>

definition emailAddress :: "jsstring \<Rightarrow> jsstring \<Rightarrow> jsstring \<Rightarrow> jsstring" where
  "emailAddress l d t = l @ [64] @ d @ [46] @ t"

definition emailParts :: "jsstring \<Rightarrow> jsstring \<Rightarrow> jsstring \<Rightarrow> bool" where
  "emailParts l d t \<longleftrightarrow>
     l \<noteq> [] \<and> list_all emailLocal l \<and> d \<noteq> [] \<and> list_all emailDomain d \<and>
     2 \<le> length t \<and> list_all isLower t"

definition emailLike :: "jsstring \<Rightarrow> bool" where
  "emailLike w \<longleftrightarrow> (\<exists>l d t. emailParts l d t \<and> w = emailAddress l d t)"

text \<open>
  \<open>firstEmail text m\<close>: \<open>m\<close> is the email-like substring of the text that starts first,
  and of those that start there the longest. \<open>wellFormedAddress\<close> is the form
  \<open>local@domain.tld\<close> with letters of either case in each of the three parts.
\<close>

definition firstEmail :: "jsstring \<Rightarrow> jsstring \<Rightarrow> bool" where
  "firstEmail text m \<longleftrightarrow>
     (\<exists>pre post. text = pre @ m @ post \<and> emailLike m \<and>
        (\<forall>pre' w post'. text = pre' @ w @ post' \<and> emailLike w \<longrightarrow>
           length pre < length pre' \<or> (length pre = length pre' \<and> length w \<le> length m)))"

definition wellFormedAddress :: "jsstring \<Rightarrow> bool" where
  "wellFormedAddress w \<longleftrightarrow>
     (\<exists>l d t. l \<noteq> [] \<and> list_all emailLocal l \<and> d \<noteq> [] \<and> list_all emailDomain d \<and>
        2 \<le> length t \<and> list_all (\<lambda>c. isLower c \<or> isUpper c) t \<and> w = emailAddress l d t)"

definition emailTailRe :: regex where
  "emailTailRe = Seq (Chars (\<lambda>c. c = 46)) (Rep 2 None isLower)"

definition emailHostRe :: regex where
  "emailHostRe = Seq (Rep 1 None emailDomain) emailTailRe"

text \<open>A parser consumes input when every result leaves fewer tokens than it was given.\<close>

definition consumes :: "(token list \<Rightarrow> ('a \<times> token list) option) \<Rightarrow> token list \<Rightarrow> bool" where
  "consumes f ts \<longleftrightarrow> (\<forall>v r. f ts = Some (v, r) \<longrightarrow> length r < length ts)"

section \<open>Facts about lookup and update of candidates\<close>

lemma findCandidate_map:
  assumes "\<And>c. c_id (f c) = c_id c"
  shows "findCandidate (map (\<lambda>c. if c_id c = i then f c else c) cs) j =
         (if j = i then map_option f (findCandidate cs i) else findCandidate cs j)"
  using assms by (induction cs) (auto simp: findCandidate_def)

lemma findCandidate_id: "findCandidate cs i = Some c \<Longrightarrow> c_id c = i"
  by (induction cs) (auto simp: findCandidate_def split: if_splits)

lemma findCandidate_mem: "findCandidate cs i = Some c \<Longrightarrow> c \<in> set cs"
  by (induction cs) (auto simp: findCandidate_def split: if_splits)

lemma candidates_updateCandidate:
  "candidates (updateCandidate i f s) = map (\<lambda>c. if c_id c = i then f c else c) (candidates s)"
  by (simp add: updateCandidate_def)

lemma other_fields_updateCandidate:
  "active (updateCandidate i f s) = active s"
  "questions (updateCandidate i f s) = questions s"
  "currentIndex (updateCandidate i f s) = currentIndex s"
  "remaining (updateCandidate i f s) = remaining s"
  "answer (updateCandidate i f s) = answer s"
  "submitting (updateCandidate i f s) = submitting s"
  "timerRef (updateCandidate i f s) = timerRef s"
  by (simp_all add: updateCandidate_def)

lemma candidates_startTimer: "candidates (startTimer s) = candidates s"
  by (simp add: startTimer_def Let_def split: option.splits)

lemma candidates_timerEffect: "candidates (timerEffect s) = candidates s"
  by (simp add: timerEffect_def candidates_startTimer split: option.splits)

section \<open>Reconstruction of the remaining time\<close>

lemma reconstructRemaining_stored:
  assumes "c_timer cand = Some t" and "t_questionIndex t = Some idx" and "t_remaining t = Some r"
  shows "reconstructRemaining qs idx cand now1 = max 0 (r - (now1 - t_lastUpdated t) div 1000)"
  using assms by (simp add: reconstructRemaining_def Let_def)

lemma remaining_timerEffect_stored:
  assumes "questions s \<noteq> []" and "currentIndex s < length (questions s)"
    and "active s = Some a" and "findCandidate (candidates s) a = Some c"
    and "\<not> c_paused c" and "c_timer c = Some t" and "t_remaining t = Some r"
  shows "remaining (timerEffect s) = r"
  using assms by (simp add: timerEffect_def startTimer_def at_index_def Let_def)

text \<open>
  Claim C2. A candidate that is opened or resumed through \<open>handleOpenCandidate\<close> while not
  paused, whose questions are known or are fetched, and whose stored timer is for the question
  index \<open>i\<close> it is opened on and holds a number as \<open>remaining\<close>: the remaining time shown,
  and the one stored back with the candidate, is
  \<open>max(0, storedRemaining - floor((now - lastUpdated) / 1000))\<close>.
\<close>

theorem openCandidate_reconstructs_remaining:
  assumes found: "findCandidate (candidates s) candidateId = Some cand"
    and qs: "c_questions cand \<noteq> [] \<or> (\<exists>qs. fetched = Some qs \<and> length qs = 6)"
    and np: "\<not> c_paused cand"
    and tm: "c_timer cand = Some t"
    and ix: "t_questionIndex t = Some (resumeIndex resume cand)"
    and rm: "t_remaining t = Some storedRemaining"
  shows "remaining (handleOpenCandidate candidateId resume fetched now1 now2 s) =
           max 0 (storedRemaining - (now1 - t_lastUpdated t) div 1000)
         \<and> map_option c_timer
             (findCandidate (candidates (handleOpenCandidate candidateId resume fetched now1 now2 s))
                candidateId) =
           Some (Some \<lparr>t_questionIndex = Some (resumeIndex resume cand),
                       t_remaining = Some (max 0 (storedRemaining - (now1 - t_lastUpdated t) div 1000)),
                       t_lastUpdated = now2\<rparr>)"
proof -
  define rem where "rem = max 0 (storedRemaining - (now1 - t_lastUpdated t) div 1000)"
  define idx where "idx = resumeIndex resume cand"
  define upd :: "candidate \<Rightarrow> candidate" where "upd = (\<lambda>c. c\<lparr>c_timer := Some \<lparr>t_questionIndex = Some idx, t_remaining = Some rem,
                                                  t_lastUpdated = now2\<rparr>, c_paused := False\<rparr>)"
  have rr: "reconstructRemaining qs idx cand now1 = rem" for qs
    using reconstructRemaining_stored [OF tm _ rm] ix by (simp add: rem_def idx_def)
  have final: "remaining (timerEffect (updateCandidate candidateId upd s2)) = rem
       \<and> map_option c_timer (findCandidate (candidates (timerEffect (updateCandidate candidateId upd s2)))
            candidateId) = Some (Some \<lparr>t_questionIndex = Some idx, t_remaining = Some rem,
                                       t_lastUpdated = now2\<rparr>)"
    if a: "active s2 = Some candidateId" and q: "questions s2 \<noteq> []"
      and c: "currentIndex s2 < length (questions s2)"
      and f: "findCandidate (candidates s2) candidateId = Some c0" for s2 c0
  proof -
    let ?s3 = "updateCandidate candidateId upd s2"
    have f3: "findCandidate (candidates ?s3) candidateId = Some (upd c0)"
      by (simp add: candidates_updateCandidate findCandidate_map upd_def f)
    have u: "\<not> c_paused (upd c0)"
      "c_timer (upd c0) = Some \<lparr>t_questionIndex = Some idx, t_remaining = Some rem, t_lastUpdated = now2\<rparr>"
      by (simp_all add: upd_def)
    have "remaining (timerEffect ?s3) = rem"
      by (rule remaining_timerEffect_stored [OF _ _ _ f3 u])
         (simp_all add: other_fields_updateCandidate a q c)
    moreover have "map_option c_timer (findCandidate (candidates (timerEffect ?s3)) candidateId) =
        Some (Some \<lparr>t_questionIndex = Some idx, t_remaining = Some rem, t_lastUpdated = now2\<rparr>)"
      by (simp add: candidates_timerEffect f3) (simp add: upd_def)
    ultimately show ?thesis by simp
  qed
  show ?thesis
  proof (cases "c_questions cand \<noteq> []")
    case True
    let ?s2 = "s\<lparr>questions := c_questions cand,
                 currentIndex := min idx (length (c_questions cand) - 1),
                 remaining := rem, active := Some candidateId,
                 loading := False, fetchingQuestions := False\<rparr>"
    have eq: "handleOpenCandidate candidateId resume fetched now1 now2 s =
              timerEffect (updateCandidate candidateId upd ?s2)"
      using True found
      by (simp add: handleOpenCandidate_def openCandidate_def Let_def rr upd_def idx_def [symmetric])
    have "currentIndex ?s2 < length (questions ?s2)"
      using True by (cases "c_questions cand") (simp_all add: min_def)
    then show ?thesis
      unfolding eq rem_def [symmetric] idx_def [symmetric]
      using final [of ?s2 cand] True found by simp
  next
    case False
    then obtain qs where fq: "fetched = Some qs" and len: "length qs = 6"
      using qs by blast
    let ?s1 = "updateCandidate candidateId (\<lambda>c. c\<lparr>c_questions := qs, c_questionsLength := length qs\<rparr>) s"
    let ?s2 = "?s1\<lparr>questions := qs, currentIndex := min idx (length qs - 1),
                 remaining := rem, active := Some candidateId,
                 loading := False, fetchingQuestions := False\<rparr>"
    have eq: "handleOpenCandidate candidateId resume fetched now1 now2 s =
              timerEffect (updateCandidate candidateId upd ?s2)"
      using False found fq len
      by (simp add: handleOpenCandidate_def openCandidate_def Let_def rr upd_def idx_def [symmetric])
    have f1: "findCandidate (candidates ?s2) candidateId =
              Some (cand\<lparr>c_questions := qs, c_questionsLength := length qs\<rparr>)"
      by (simp add: candidates_updateCandidate findCandidate_map found)
    have "currentIndex ?s2 < length (questions ?s2)" "questions ?s2 \<noteq> []"
      using len by (auto simp: min_def)
    then show ?thesis
      unfolding eq rem_def [symmetric] idx_def [symmetric]
      using final [OF _ _ _ f1] by simp
  qed
qed

theorem openCandidate_reconstructs_remaining_witness:
  "findCandidate (candidates (mountedWith [storedMidway])) 7 = Some storedMidway
   \<and> c_questions storedMidway = sixQuestions \<and> length sixQuestions = 6
   \<and> \<not> c_paused storedMidway
   \<and> c_timer storedMidway = Some \<lparr>t_questionIndex = Some 2, t_remaining = Some 45, t_lastUpdated = 1000000\<rparr>
   \<and> resumeIndex True storedMidway = 2
   \<and> remaining (handleOpenCandidate 7 True None 1012500 1012600 (mountedWith [storedMidway])) = 33"
proof -
  let ?t = "\<lparr>t_questionIndex = Some 2, t_remaining = Some 45, t_lastUpdated = 1000000\<rparr>"
  have h1: "findCandidate (candidates (mountedWith [storedMidway])) 7 = Some storedMidway"
    by (simp add: findCandidate_def mountedWith_def storedMidway_def sampleCandidate_def)
  have h2: "c_questions storedMidway \<noteq> [] \<or> (\<exists>qs. (None :: question list option) = Some qs \<and> length qs = 6)"
    by (simp add: storedMidway_def sampleCandidate_def sixQuestions_def)
  have h3: "\<not> c_paused storedMidway"
    by (simp add: storedMidway_def sampleCandidate_def)
  have h4: "c_timer storedMidway = Some ?t"
    by (simp add: storedMidway_def)
  have h5: "resumeIndex True storedMidway = 2"
    by (simp add: resumeIndex_def storedMidway_def)
  have h6: "t_questionIndex ?t = Some (resumeIndex True storedMidway)"
    by (simp add: h5)
  have h7: "t_remaining ?t = Some 45"
    by simp
  have "remaining (handleOpenCandidate 7 True None 1012500 1012600 (mountedWith [storedMidway])) = 33"
    using openCandidate_reconstructs_remaining [OF h1 h2 h3 h4 h6 h7, of 1012500 1012600]
    by simp
  moreover have "c_questions storedMidway = sixQuestions \<and> length sixQuestions = 6"
    by (simp add: storedMidway_def sampleCandidate_def sixQuestions_def)
  ultimately show ?thesis using h1 h3 h4 h5 by blast
qed

section \<open>Pausing\<close>

lemma pauseActive_found:
  assumes "active s = Some a" and "findCandidate (candidates s) a = Some c"
  shows "pauseActive now s =
         s\<lparr>timerRef := False,
           candidates := map (\<lambda>c. if c_id c = a
                 then c\<lparr>c_paused := True, c_timer := Some (pauseTimer (remaining s) now (c_timer c))\<rparr>
                 else c) (candidates s)\<rparr>"
proof -
  let ?f = "\<lambda>c. c\<lparr>c_paused := True, c_timer := Some (pauseTimer (remaining s) now (c_timer c))\<rparr>"
  let ?s1 = "updateCandidate a ?f (s\<lparr>timerRef := False\<rparr>)"
  have f: "findCandidate (candidates ?s1) a = Some (?f c)"
    using assms(2) by (simp add: candidates_updateCandidate findCandidate_map)
  have "timerEffect ?s1 = ?s1\<lparr>timerRef := False\<rparr>"
    using f assms(1) by (simp add: timerEffect_def other_fields_updateCandidate)
  then show ?thesis
    using assms(1) by (simp add: pauseActive_def updateCandidate_def)
qed

lemma pauseTimer_twice: "pauseTimer r now2 (Some (pauseTimer r now1 t)) = pauseTimer r now2 t"
  by (simp add: pauseTimer_def split: option.splits)

lemma pauseTimer_restamp:
  "pauseTimer r now2 (Some (pauseTimer r now1 t)) = (pauseTimer r now1 t)\<lparr>t_lastUpdated := now2\<rparr>"
  by (simp add: pauseTimer_def split: option.splits)

text \<open>
  Claim C9. For an active candidate, pausing twice in a row (at the times \<open>now1\<close> and then
  \<open>now2\<close>) gives the state that one pause gives: it is the state of pausing once at
  \<open>now2\<close>, and it is the state after the first pause with only the time stamp
  \<open>lastUpdated\<close> of the stored timer renewed. The interval stays cleared, the candidate stays
  paused, and the remaining time, shown and stored, is the one from before the first pause.
\<close>

theorem pauseActive_idempotent:
  assumes act: "active s = Some a" and found: "findCandidate (candidates s) a = Some c"
  shows "pauseActive now2 (pauseActive now1 s) = pauseActive now2 s
    \<and> pauseActive now2 (pauseActive now1 s) =
         updateCandidate a (\<lambda>c. c\<lparr>c_timer := map_option (\<lambda>t. t\<lparr>t_lastUpdated := now2\<rparr>) (c_timer c)\<rparr>)
           (pauseActive now1 s)
    \<and> \<not> timerRef (pauseActive now2 (pauseActive now1 s))
    \<and> remaining (pauseActive now2 (pauseActive now1 s)) = remaining s
    \<and> map_option (\<lambda>c. (c_paused c, map_option t_remaining (c_timer c)))
           (findCandidate (candidates (pauseActive now2 (pauseActive now1 s))) a) =
         Some (True, Some (Some (remaining s)))"
proof -
  let ?f1 = "\<lambda>c. c\<lparr>c_paused := True, c_timer := Some (pauseTimer (remaining s) now1 (c_timer c))\<rparr>"
  let ?s1 = "pauseActive now1 s"
  have s1: "?s1 = s\<lparr>timerRef := False,
                    candidates := map (\<lambda>c. if c_id c = a then ?f1 c else c) (candidates s)\<rparr>"
    by (rule pauseActive_found [OF assms])
  have a1: "active ?s1 = Some a"
    by (simp add: s1 act)
  have f1: "findCandidate (candidates ?s1) a = Some (?f1 c)"
    by (simp add: s1 findCandidate_map found)
  have r1: "remaining ?s1 = remaining s"
    by (simp add: s1)
  note s2 = pauseActive_found [OF a1 f1, of now2]
  have c1: "pauseActive now2 ?s1 = pauseActive now2 s"
    unfolding s2 pauseActive_found [OF assms, of now2]
    by (simp add: s1 pauseTimer_twice cong: if_cong)
  have c2: "pauseActive now2 ?s1 =
        updateCandidate a (\<lambda>c. c\<lparr>c_timer := map_option (\<lambda>t. t\<lparr>t_lastUpdated := now2\<rparr>) (c_timer c)\<rparr>) ?s1"
    unfolding s2 updateCandidate_def
    by (simp add: s1 pauseTimer_restamp cong: if_cong)
  have c3: "\<not> timerRef (pauseActive now2 ?s1)"
    unfolding s2 by simp
  have c4: "remaining (pauseActive now2 ?s1) = remaining s"
    unfolding s2 by (simp add: r1)
  have c5: "map_option (\<lambda>c. (c_paused c, map_option t_remaining (c_timer c)))
          (findCandidate (candidates (pauseActive now2 ?s1)) a) = Some (True, Some (Some (remaining s)))"
    unfolding s2 by (simp add: findCandidate_map f1 r1 pauseTimer_def split: option.splits)
  from c1 c2 c3 c4 c5 show ?thesis by blast
qed

theorem pauseActive_idempotent_witness:
  "active runningMidway = Some 7
   \<and> findCandidate (candidates runningMidway) 7 = Some storedMidway
   \<and> pauseActive 1003000 (pauseActive 1002000 runningMidway) = pauseActive 1003000 runningMidway
   \<and> \<not> timerRef (pauseActive 1003000 (pauseActive 1002000 runningMidway))
   \<and> remaining (pauseActive 1003000 (pauseActive 1002000 runningMidway)) = 45"
proof -
  have h1: "active runningMidway = Some 7"
    by (simp add: runningMidway_def)
  have h2: "findCandidate (candidates runningMidway) 7 = Some storedMidway"
    by (simp add: runningMidway_def mountedWith_def findCandidate_def storedMidway_def sampleCandidate_def)
  have h3: "remaining runningMidway = 45"
    by (simp add: runningMidway_def)
  note th = pauseActive_idempotent [OF h1 h2, of 1003000 1002000]
  have "pauseActive 1003000 (pauseActive 1002000 runningMidway) = pauseActive 1003000 runningMidway"
    using th by blast
  moreover have "\<not> timerRef (pauseActive 1003000 (pauseActive 1002000 runningMidway))"
    using th by blast
  moreover have "remaining (pauseActive 1003000 (pauseActive 1002000 runningMidway)) = 45"
    using th h3 by metis
  ultimately show ?thesis using h1 h2 by blast
qed

section \<open>Validation in POST /api/grade-answer\<close>

lemma roundsToZero_examples:
  "roundsToZero 0" "\<not> roundsToZero 1" "roundsToZero (1 / 10 ^ 400)" "\<not> roundsToZero (10 ^ 400)"
  by (simp_all add: roundsToZero_def)

lemma gradeAnswer_calls_le_1: "length (snd (gradeAnswer stack generateContent body)) \<le> 1"
  by (simp add: gradeAnswer_def split: option.splits prod.splits)

lemma gradeAnswer_missing:
  assumes "b \<noteq> JNull"
    and "getProp b (js ''question'') = None \<or> getProp b (js ''answer'') = None"
  shows "gradeAnswer stack generateContent (Some b) = (Response 400 (errorBody ''Missing data''), [])"
  using assms by (auto simp: gradeAnswer_def split: option.splits)

lemma gradeAnswer_falsy:
  assumes "b \<noteq> JNull"
    and "getProp b (js ''question'') = Some q" and "getProp b (js ''answer'') = Some a"
    and "\<not> truthy q \<or> \<not> truthy a"
  shows "gradeAnswer stack generateContent (Some b) = (Response 400 (errorBody ''Missing data''), [])"
  using assms by (auto simp: gradeAnswer_def)

lemma gradeAnswer_truthy:
  assumes "getProp b (js ''question'') = Some q" and "getProp b (js ''answer'') = Some a"
    and "truthy q" and "truthy a" and "interpolates q" and "interpolates a"
    and "stack q" and "stack a"
  shows "snd (gradeAnswer stack generateContent (Some b)) = [(q, a)]"
proof -
  have "b \<noteq> JNull"
    using assms(1) by auto
  then show ?thesis
    using assms by (simp add: gradeAnswer_def split: option.splits)
qed

lemma gradeAnswer_prompt_throws:
  assumes "getProp b (js ''question'') = Some q" and "getProp b (js ''answer'') = Some a"
    and "truthy q" and "truthy a"
    and "\<not> interpolates q \<or> \<not> stack q \<or> \<not> interpolates a \<or> \<not> stack a"
  shows "gradeAnswer stack generateContent (Some b) = (Response 500 (errorBody ''Gemini grading failed''), [])"
proof -
  have "b \<noteq> JNull"
    using assms(1) by auto
  then show ?thesis
    using assms by (auto simp: gradeAnswer_def)
qed

lemma getProp_sample:
  "getProp (gradeRequest a) (js ''question'') = Some (JString (js ''What is JSX?''))"
  "getProp (gradeRequest a) (js ''answer'') = Some a"
  "getProp gradeRequestNoAnswer (js ''answer'') = None"
  by (simp_all add: gradeRequest_def gradeRequestNoAnswer_def js_def)

lemma gradeAnswer_no_body:
  "gradeAnswer stack generateContent None = (Response 500 (errorBody ''Gemini grading failed''), [])"
  "gradeAnswer stack generateContent (Some JNull) = (Response 500 (errorBody ''Gemini grading failed''), [])"
  by (simp_all add: gradeAnswer_def)

text \<open>
  Claim C8, as the code has it. For a request whose body has no \<open>question\<close> field or no
  \<open>answer\<close> field, the handler answers 400 and has made no call to the model; a field
  that is present with a falsy value is answered in the same way. When both fields are
  present and truthy and both can be turned into a string for the prompt (no object with a
  member named \<open>toString\<close> is met, and the call stack suffices), exactly one call is made,
  whatever the model replies; when both are truthy and one of them cannot be turned into a
  string, the handler answers 500 and has made no call. A body that is \<open>undefined\<close> or
  \<open>null\<close> makes the destructuring throw: status 500, no call. No request makes more than
  one call.
\<close>

theorem gradeAnswer_validation:
  "(b \<noteq> JNull \<and> (getProp b (js ''question'') = None \<or> getProp b (js ''answer'') = None)
      \<longrightarrow> gradeAnswer stack generateContent (Some b) = (Response 400 (errorBody ''Missing data''), []))
   \<and> (\<forall>q a. getProp b (js ''question'') = Some q \<and> getProp b (js ''answer'') = Some a
            \<and> (\<not> truthy q \<or> \<not> truthy a)
      \<longrightarrow> gradeAnswer stack generateContent (Some b) = (Response 400 (errorBody ''Missing data''), []))
   \<and> (\<forall>q a. getProp b (js ''question'') = Some q \<and> getProp b (js ''answer'') = Some a
            \<and> truthy q \<and> truthy a \<and> interpolates q \<and> stack q \<and> interpolates a \<and> stack a
      \<longrightarrow> snd (gradeAnswer stack generateContent (Some b)) = [(q, a)])
   \<and> (\<forall>q a. getProp b (js ''question'') = Some q \<and> getProp b (js ''answer'') = Some a
            \<and> truthy q \<and> truthy a
            \<and> (\<not> interpolates q \<or> \<not> stack q \<or> \<not> interpolates a \<or> \<not> stack a)
      \<longrightarrow> gradeAnswer stack generateContent (Some b) =
            (Response 500 (errorBody ''Gemini grading failed''), []))
   \<and> gradeAnswer stack generateContent None = (Response 500 (errorBody ''Gemini grading failed''), [])
   \<and> gradeAnswer stack generateContent (Some JNull) =
       (Response 500 (errorBody ''Gemini grading failed''), [])
   \<and> length (snd (gradeAnswer stack generateContent body)) \<le> 1"
proof -
  have "gradeAnswer stack generateContent (Some b) = (Response 400 (errorBody ''Missing data''), [])"
    if "getProp b (js ''question'') = Some q" and "getProp b (js ''answer'') = Some a"
      and "\<not> truthy q \<or> \<not> truthy a" for q a
  proof -
    have "b \<noteq> JNull"
      using that(1) by auto
    then show ?thesis
      using that by (rule gradeAnswer_falsy)
  qed
  then show ?thesis
    using gradeAnswer_missing [of b stack generateContent]
      gradeAnswer_truthy [of b _ _ stack generateContent]
      gradeAnswer_prompt_throws [of b _ _ stack generateContent]
      gradeAnswer_calls_le_1 [of stack generateContent body]
      gradeAnswer_no_body [of stack generateContent]
    by blast
qed

theorem gradeAnswer_validation_witness:
  "gradeRequestNoAnswer \<noteq> JNull
   \<and> getProp gradeRequestNoAnswer (js ''answer'') = None
   \<and> gradeAnswer sampleStack sampleModel (Some gradeRequestNoAnswer) = (Response 400 (errorBody ''Missing data''), [])
   \<and> getProp (gradeRequest (JString (js ''A syntax extension.''))) (js ''question'') = Some (JString (js ''What is JSX?''))
   \<and> getProp (gradeRequest (JString (js ''A syntax extension.''))) (js ''answer'') = Some (JString (js ''A syntax extension.''))
   \<and> truthy (JString (js ''What is JSX?'')) \<and> truthy (JString (js ''A syntax extension.''))
   \<and> interpolates (JString (js ''What is JSX?'')) \<and> interpolates (JString (js ''A syntax extension.''))
   \<and> sampleStack (JString (js ''What is JSX?'')) \<and> sampleStack (JString (js ''A syntax extension.''))
   \<and> snd (gradeAnswer sampleStack sampleModel (Some (gradeRequest (JString (js ''A syntax extension.''))))) =
       [(JString (js ''What is JSX?''), JString (js ''A syntax extension.''))]
   \<and> getProp (gradeRequest (JObject [(js ''toString'', JNumber 1)])) (js ''answer'') =
       Some (JObject [(js ''toString'', JNumber 1)])
   \<and> truthy (JObject [(js ''toString'', JNumber 1)])
   \<and> \<not> interpolates (JObject [(js ''toString'', JNumber 1)])
   \<and> gradeAnswer sampleStack sampleModel (Some (gradeRequest (JObject [(js ''toString'', JNumber 1)]))) =
       (Response 500 (errorBody ''Gemini grading failed''), [])
   \<and> \<not> truthy (JBool False)
   \<and> gradeAnswer sampleStack sampleModel (Some (gradeRequest (JBool False))) =
       (Response 400 (errorBody ''Missing data''), [])"
proof -
  let ?q = "JString (js ''What is JSX?'')"
  let ?a = "JString (js ''A syntax extension.'')"
  let ?o = "JObject [(js ''toString'', JNumber 1)]"
  have n: "gradeRequestNoAnswer \<noteq> JNull"
    by (simp add: gradeRequestNoAnswer_def)
  have t: "truthy ?q" "truthy ?a" "truthy ?o" "\<not> truthy (JBool False)"
    by (simp_all add: js_def)
  have i: "interpolates ?q" "interpolates ?a" "\<not> interpolates ?o"
    by simp_all
  have k: "sampleStack ?q" "sampleStack ?a"
    by (simp_all add: sampleStack_def)
  have c1: "gradeAnswer sampleStack sampleModel (Some gradeRequestNoAnswer) =
      (Response 400 (errorBody ''Missing data''), [])"
    by (rule gradeAnswer_validation [of gradeRequestNoAnswer sampleStack sampleModel None,
          THEN conjunct1, rule_format])
      (intro conjI disjI2 n getProp_sample(3))
  have c2: "gradeAnswer sampleStack sampleModel (Some (gradeRequest (JBool False))) =
      (Response 400 (errorBody ''Missing data''), [])"
    by (rule gradeAnswer_validation [of "gradeRequest (JBool False)" sampleStack sampleModel None,
          THEN conjunct2, THEN conjunct1, rule_format, of ?q "JBool False"])
      (intro conjI disjI2 getProp_sample(1,2) t(4))
  have c3: "snd (gradeAnswer sampleStack sampleModel (Some (gradeRequest ?a))) = [(?q, ?a)]"
    by (rule gradeAnswer_validation [of "gradeRequest ?a" sampleStack sampleModel None,
          THEN conjunct2, THEN conjunct2, THEN conjunct1, rule_format])
      (intro conjI getProp_sample(1,2) t(1,2) i(1,2) k)
  have c4: "gradeAnswer sampleStack sampleModel (Some (gradeRequest ?o)) =
      (Response 500 (errorBody ''Gemini grading failed''), [])"
    by (rule gradeAnswer_validation [of "gradeRequest ?o" sampleStack sampleModel None,
          THEN conjunct2, THEN conjunct2, THEN conjunct2, THEN conjunct1, rule_format, of ?q ?o])
      (intro conjI disjI2 disjI1 getProp_sample(1,2) t(1,3) i(3))
  show ?thesis
    by (intro conjI n t i k c1 c2 c3 c4 getProp_sample)
qed

text \<open>
  The claim as it is written fails: a body whose \<open>answer\<close> field is present and is the empty
  string makes no call to the model, although both fields are present.
\<close>

theorem gradeAnswer_present_counterexample:
  "getProp (gradeRequest (JString [])) (js ''question'') = Some (JString (js ''What is JSX?''))
   \<and> getProp (gradeRequest (JString [])) (js ''answer'') = Some (JString [])
   \<and> snd (gradeAnswer sampleStack sampleModel (Some (gradeRequest (JString [])))) = []
   \<and> length (snd (gradeAnswer sampleStack sampleModel (Some (gradeRequest (JString []))))) \<noteq> 1"
proof -
  have "gradeRequest (JString []) \<noteq> JNull"
    by (simp add: gradeRequest_def)
  then have "gradeAnswer sampleStack sampleModel (Some (gradeRequest (JString []))) =
             (Response 400 (errorBody ''Missing data''), [])"
    by (rule gradeAnswer_falsy [OF _ getProp_sample(1) getProp_sample(2)]) simp
  then show ?thesis
    by (simp add: getProp_sample)
qed

lemma gradeAnswerServer_falsy:
  assumes "getProp b (js ''question'') = Some q" and "getProp b (js ''answer'') = Some a"
    and "\<not> truthy q \<or> \<not> truthy a"
  shows "gradeAnswerServer stack generateContent (Some b) =
         (Response 400 (errorBody ''Missing question or answer''), [])"
proof -
  obtain kvs where "b = JObject kvs"
    using assms(1) by (cases b) simp_all
  then show ?thesis
    using assms by (auto simp: gradeAnswerServer_def)
qed

text \<open>
  Claim C10. An \<open>answer\<close> field that is present with a falsy value (the empty string and
  the number 0 are such values) gets the response of a missing field from both versions of
  the handler: status 400, and no call to the model.
\<close>

theorem gradeAnswer_falsy_answer:
  assumes "getProp b (js ''question'') = Some q" and "getProp b (js ''answer'') = Some a"
    and "\<not> truthy a"
  shows "gradeAnswer stack generateContent (Some b) = (Response 400 (errorBody ''Missing data''), [])
    \<and> gradeAnswerServer stack generateContent (Some b) =
        (Response 400 (errorBody ''Missing question or answer''), [])
    \<and> \<not> truthy (JString []) \<and> \<not> truthy (JNumber 0)"
proof -
  have "b \<noteq> JNull"
    using assms(1) by auto
  then show ?thesis
    using gradeAnswer_falsy [OF _ assms(1,2)] gradeAnswerServer_falsy [OF assms(1,2)] assms(3)
    by (simp add: roundsToZero_examples)
qed

theorem gradeAnswer_falsy_answer_witness:
  "getProp (gradeRequest (JString [])) (js ''answer'') = Some (JString [])
   \<and> gradeAnswer sampleStack sampleModel (Some (gradeRequest (JString []))) =
       (Response 400 (errorBody ''Missing data''), [])
   \<and> gradeAnswerServer sampleStack sampleModel (Some (gradeRequest (JString []))) =
       (Response 400 (errorBody ''Missing question or answer''), [])
   \<and> getProp (gradeRequest (JNumber 0)) (js ''answer'') = Some (JNumber 0)
   \<and> gradeAnswer sampleStack sampleModel (Some (gradeRequest (JNumber 0))) =
       (Response 400 (errorBody ''Missing data''), [])
   \<and> gradeAnswerServer sampleStack sampleModel (Some (gradeRequest (JNumber 0))) =
       (Response 400 (errorBody ''Missing question or answer''), [])"
proof -
  have a: "\<not> truthy (JString [])" and b: "\<not> truthy (JNumber 0)"
    by (simp_all add: roundsToZero_examples)
  note e = gradeAnswer_falsy_answer [OF getProp_sample(1) getProp_sample(2) a, of sampleStack sampleModel]
  note z = gradeAnswer_falsy_answer [OF getProp_sample(1) getProp_sample(2) b, of sampleStack sampleModel]
  from e z show ?thesis
    by (simp add: getProp_sample)
qed

section \<open>The matcher against the language\<close>

lemma takeWhile_prefix_length:
  assumes "\<forall>c \<in> set w. p c"
  shows "length w \<le> length (takeWhile p (w @ t))"
  using assms by (simp add: takeWhile_append2)

lemma take_within_takeWhile:
  assumes "k \<le> length (takeWhile p s)"
  shows "\<forall>c \<in> set (take k s). p c"
proof -
  have "take k s = take k (takeWhile p s @ dropWhile p s)"
    by simp
  also have "\<dots> = take k (takeWhile p s)"
    using assms by (simp del: takeWhile_dropWhile_id)
  finally have "set (take k s) \<subseteq> set (takeWhile p s)"
    by (simp add: set_take_subset)
  then show ?thesis
    by (auto dest: set_takeWhileD)
qed

lemma regexMatches_Rep: "regexMatches (Rep lo hi p) s = map (\<lambda>k. drop k s) (rev [lo..<Suc (repMax hi p s)])"
  by (simp add: repMax_def Let_def)

lemma regexMatches_Rep_mem:
  "t \<in> set (regexMatches (Rep lo hi p) s) \<longleftrightarrow> (\<exists>k. lo \<le> k \<and> k \<le> repMax hi p s \<and> t = drop k s)"
  unfolding regexMatches_Rep by (auto simp: less_Suc_eq_le)

lemma repMax_le: "repMax hi p s \<le> length (takeWhile p s)"
  by (simp add: repMax_def split: option.splits)

lemma repMax_hi: "case hi of None \<Rightarrow> True | Some h \<Rightarrow> repMax hi p s \<le> h"
  by (simp add: repMax_def split: option.splits)

lemma repMax_ge:
  assumes "k \<le> length (takeWhile p s)" and "case hi of None \<Rightarrow> True | Some h \<Rightarrow> k \<le> h"
  shows "k \<le> repMax hi p s"
  using assms by (simp add: repMax_def split: option.splits)

lemma regexMatches_Rep_set:
  "set (regexMatches (Rep lo hi p) s) = {t. \<exists>w \<in> lang (Rep lo hi p). s = w @ t}"
proof (intro set_eqI iffI)
  fix t
  assume "t \<in> set (regexMatches (Rep lo hi p) s)"
  then obtain k where k: "lo \<le> k" "k \<le> repMax hi p s" and t: "t = drop k s"
    unfolding regexMatches_Rep_mem by blast
  have kn: "k \<le> length (takeWhile p s)"
    using k(2) repMax_le [of hi p s] by simp
  then have kl: "k \<le> length s"
    using length_takeWhile_le [of p s] by simp
  have "\<forall>c \<in> set (take k s). p c"
    using kn by (rule take_within_takeWhile)
  moreover have "length (take k s) = k"
    using kl by simp
  moreover have "case hi of None \<Rightarrow> True | Some h \<Rightarrow> k \<le> h"
    using k(2) repMax_hi [of hi p s] by (auto split: option.splits)
  ultimately have "take k s \<in> lang (Rep lo hi p)"
    using k(1) by (simp split: option.splits)
  moreover have "s = take k s @ t"
    by (simp add: t)
  ultimately show "t \<in> {t. \<exists>w \<in> lang (Rep lo hi p). s = w @ t}"
    by blast
next
  fix t
  assume "t \<in> {t. \<exists>w \<in> lang (Rep lo hi p). s = w @ t}"
  then obtain w where w: "\<forall>c \<in> set w. p c" "lo \<le> length w"
      "case hi of None \<Rightarrow> True | Some h \<Rightarrow> length w \<le> h" and s: "s = w @ t"
    by auto
  have "length w \<le> length (takeWhile p s)"
    unfolding s by (rule takeWhile_prefix_length [OF w(1)])
  then have "length w \<le> repMax hi p s"
    using w(3) by (rule repMax_ge)
  moreover have "t = drop (length w) s"
    by (simp add: s)
  ultimately show "t \<in> set (regexMatches (Rep lo hi p) s)"
    unfolding regexMatches_Rep_mem using w(2) by blast
qed

lemma regexMatches_set: "set (regexMatches r s) = {t. \<exists>w \<in> lang r. s = w @ t}"
proof (induction r arbitrary: s)
  case (Chars p)
  show ?case
    by (cases s) auto
next
  case (Rep lo hi p)
  show ?case
    by (rule regexMatches_Rep_set)
next
  case (Seq a b)
  show ?case
  proof (intro set_eqI iffI)
    fix t
    assume "t \<in> set (regexMatches (Seq a b) s)"
    then obtain t1 where "t1 \<in> set (regexMatches a s)" and "t \<in> set (regexMatches b t1)"
      by auto
    then obtain u v where "u \<in> lang a" "s = u @ t1" "v \<in> lang b" "t1 = v @ t"
      by (auto simp: Seq.IH)
    then have "u @ v \<in> lang (Seq a b)" and "s = (u @ v) @ t"
      by auto
    then show "t \<in> {t. \<exists>w \<in> lang (Seq a b). s = w @ t}"
      by blast
  next
    fix t
    assume "t \<in> {t. \<exists>w \<in> lang (Seq a b). s = w @ t}"
    then obtain u v where uv: "u \<in> lang a" "v \<in> lang b" and s: "s = (u @ v) @ t"
      by auto
    have "v @ t \<in> set (regexMatches a s)"
      using uv(1) s by (auto simp: Seq.IH)
    moreover have "t \<in> set (regexMatches b (v @ t))"
      using uv(2) by (auto simp: Seq.IH)
    ultimately show "t \<in> set (regexMatches (Seq a b) s)"
      by auto
  qed
next
  case (Alt a b)
  show ?case
    by (auto simp: Alt.IH)
next
  case (Opt a)
  show ?case
    by (auto simp: Opt.IH)
qed


subsection \<open>The first match in a string\<close>

lemma regexMatches_suffix:
  assumes "t \<in> set (regexMatches r s)"
  shows "\<exists>w \<in> lang r. s = w @ t"
  using assms by (simp add: regexMatches_set)

lemma regexExec_here:
  assumes "regexMatches r s = t # ts"
  shows "regexExec r s = Some (take (length s - length t) s)"
  using assms by (cases s) simp_all

lemma regexExec_skip:
  assumes "regexMatches r (c # cs) = []"
  shows "regexExec r (c # cs) = regexExec r cs"
  using assms by simp

lemma regexExec_skip_prefix:
  assumes "\<And>j. j < length pre \<Longrightarrow> regexMatches r (drop j (pre @ s)) = []"
  shows "regexExec r (pre @ s) = regexExec r s"
  using assms
proof (induction pre)
  case Nil
  show ?case by simp
next
  case (Cons c pre)
  have "regexMatches r (c # pre @ s) = []"
    using Cons.prems [of 0] by simp
  moreover have "regexExec r (pre @ s) = regexExec r s"
  proof (rule Cons.IH)
    fix j
    assume "j < length pre"
    then show "regexMatches r (drop j (pre @ s)) = []"
      using Cons.prems [of "Suc j"] by simp
  qed
  ultimately show ?case
    by simp
qed

lemma regexExec_Some_lang:
  assumes "regexExec r s = Some m"
  shows "m \<in> lang r \<and> (\<exists>pre post. s = pre @ m @ post)"
  using assms
proof (induction s)
  case Nil
  then obtain t ts where "regexMatches r [] = t # ts" and m: "m = []"
    by (auto split: list.splits)
  then have "t \<in> set (regexMatches r [])"
    by simp
  then obtain w where "w \<in> lang r" "[] = w @ t"
    using regexMatches_suffix by blast
  then show ?case
    using m by auto
next
  case (Cons c cs)
  show ?case
  proof (cases "regexMatches r (c # cs)")
    case Nil
    then have "regexExec r cs = Some m"
      using Cons.prems by simp
    then obtain pre post where "m \<in> lang r" "cs = pre @ m @ post"
      using Cons.IH by blast
    then have "c # cs = (c # pre) @ m @ post"
      by simp
    with \<open>m \<in> lang r\<close> show ?thesis
      by blast
  next
    case (Cons t ts)
    then have m: "m = take (length (c # cs) - length t) (c # cs)"
      using Cons.prems by simp
    have "t \<in> set (regexMatches r (c # cs))"
      using Cons by simp
    then obtain w where w: "w \<in> lang r" "c # cs = w @ t"
      using regexMatches_suffix by blast
    have "m = w"
      unfolding m w(2) by simp
    then show ?thesis
      using w by (metis append_Nil)
  qed
qed

lemma regexExec_None_lang:
  assumes "regexExec r s = None" and "s = pre @ w @ post"
  shows "w \<notin> lang r"
  using assms
proof (induction s arbitrary: pre)
  case Nil
  then have "regexMatches r [] = []" and "w = []" and "post = []"
    by (auto split: list.splits)
  then show ?case
    using regexMatches_set [of r "[]"] by auto
next
  case (Cons c cs)
  have e: "regexMatches r (c # cs) = []" and n: "regexExec r cs = None"
    using Cons.prems(1) by (auto split: list.splits)
  show ?case
  proof (cases pre)
    case Nil
    show ?thesis
    proof
      assume "w \<in> lang r"
      then have "post \<in> set (regexMatches r (c # cs))"
        using Cons.prems(2) Nil by (auto simp: regexMatches_set)
      then show False
        using e by simp
    qed
  next
    case (Cons d pre')
    then have "cs = pre' @ w @ post"
      using Cons.prems(2) by simp
    then show ?thesis
      using Cons.IH [OF n] by blast
  qed
qed

lemma regexExec_substring:
  assumes "w \<in> lang r"
  shows "regexExec r (pre @ w @ post) \<noteq> None"
  using regexExec_None_lang [of r "pre @ w @ post" pre w post] assms by blast

subsection \<open>Which match is the first\<close>

text \<open>
  The match that \<open>regexExec\<close> returns starts at the first position that has a match,
  and it is the first of the matches that the matcher lists there. When the matcher lists
  the rests of the text by increasing length, the first match is the longest.
\<close>

lemma regexExec_first:
  assumes "regexExec r s = Some m"
  shows "\<exists>pre post ts. s = pre @ m @ post \<and> regexMatches r (m @ post) = post # ts \<and>
           (\<forall>j < length pre. regexMatches r (drop j s) = [])"
  using assms
proof (induction s)
  case Nil
  then obtain t ts where e: "regexMatches r [] = t # ts" and m: "m = []"
    by (auto split: list.splits)
  then have "t \<in> set (regexMatches r [])"
    by simp
  then have "t = []"
    using regexMatches_suffix by fastforce
  then have "[] = [] @ m @ [] \<and> regexMatches r (m @ []) = [] # ts \<and>
      (\<forall>j < length ([] :: jsstring). regexMatches r (drop j []) = [])"
    using e m by simp
  then show ?case
    by blast
next
  case (Cons c cs)
  show ?case
  proof (cases "regexMatches r (c # cs)")
    case Nil
    then have "regexExec r cs = Some m"
      using Cons.prems by simp
    then obtain pre post ts where p: "cs = pre @ m @ post" "regexMatches r (m @ post) = post # ts"
        "\<forall>j < length pre. regexMatches r (drop j cs) = []"
      using Cons.IH by blast
    have "\<forall>j < length (c # pre). regexMatches r (drop j (c # cs)) = []"
    proof (intro allI impI)
      fix j
      assume "j < length (c # pre)"
      then show "regexMatches r (drop j (c # cs)) = []"
        using Nil p(3) by (cases j) simp_all
    qed
    moreover have "c # cs = (c # pre) @ m @ post"
      using p(1) by simp
    ultimately show ?thesis
      using p(2) by blast
  next
    case (Cons t ts)
    then have m: "m = take (length (c # cs) - length t) (c # cs)"
      using Cons.prems by simp
    have "t \<in> set (regexMatches r (c # cs))"
      using Cons by simp
    then obtain w where w: "w \<in> lang r" "c # cs = w @ t"
      using regexMatches_suffix by blast
    have "m = w"
      unfolding m w(2) by simp
    then have "c # cs = [] @ m @ t \<and> regexMatches r (m @ t) = t # ts \<and>
        (\<forall>j < length ([] :: jsstring). regexMatches r (drop j (c # cs)) = [])"
      using w(2) Cons by simp
    then show ?thesis
      by blast
  qed
qed

lemma sorted_regexMatches_Rep: "sorted (map length (regexMatches (Rep lo hi p) s))"
proof -
  have "sorted_wrt (<) [lo..<Suc (repMax hi p s)]"
    by (rule sorted_wrt_upt)
  then have "sorted_wrt (\<lambda>x y. length (drop y s) \<le> length (drop x s)) [lo..<Suc (repMax hi p s)]"
    by (rule sorted_wrt_mono_rel [rotated]) simp
  then show ?thesis
    unfolding regexMatches_Rep by (simp add: sorted_wrt_map sorted_wrt_rev)
qed

lemma sorted_concat_map:
  assumes "sorted_wrt (\<lambda>x y. \<forall>u \<in> set (g x). \<forall>v \<in> set (g y). length u \<le> length v) xs"
    and "\<And>x. x \<in> set xs \<Longrightarrow> sorted (map length (g x))"
  shows "sorted (map length (concat (map g xs)))"
  using assms by (induction xs) (auto simp: sorted_append)

lemma sorted_regexMatches_Rep_Seq:
  assumes each: "\<And>k. sorted (map length (regexMatches b (drop k s)))"
    and pair: "\<And>k k' x y. lo \<le> k' \<Longrightarrow> k' < k \<Longrightarrow> k \<le> repMax hi p s \<Longrightarrow>
        x \<in> set (regexMatches b (drop k s)) \<Longrightarrow> y \<in> set (regexMatches b (drop k' s)) \<Longrightarrow>
        length x \<le> length y"
  shows "sorted (map length (regexMatches (Seq (Rep lo hi p) b) s))"
proof -
  let ?g = "\<lambda>k. regexMatches b (drop k s)"
  have e: "regexMatches (Seq (Rep lo hi p) b) s = concat (map ?g (rev [lo..<Suc (repMax hi p s)]))"
    unfolding regexMatches.simps(3) regexMatches_Rep by (simp add: comp_def)
  have "sorted_wrt (<) [lo..<Suc (repMax hi p s)]"
    by (rule sorted_wrt_upt)
  then have "sorted_wrt (\<lambda>y x. \<forall>u \<in> set (?g x). \<forall>v \<in> set (?g y). length u \<le> length v)
      [lo..<Suc (repMax hi p s)]"
    by (rule sorted_wrt_mono_rel [rotated]) (auto intro: pair)
  then have "sorted_wrt (\<lambda>x y. \<forall>u \<in> set (?g x). \<forall>v \<in> set (?g y). length u \<le> length v)
      (rev [lo..<Suc (repMax hi p s)])"
    by (simp add: sorted_wrt_rev)
  then show ?thesis
    unfolding e by (rule sorted_concat_map) (rule each)
qed


section \<open>extractJSON\<close>

lemma concat_map_if_singleton:
  assumes "\<And>x. x \<in> set xs \<Longrightarrow> f x = (if P x then [h x] else [])"
  shows "concat (map f xs) = map h (filter P xs)"
  using assms by (induction xs) auto

lemma regexMatches_Chars_drop:
  assumes "k < length cs"
  shows "regexMatches (Chars p) (drop k cs) = (if p (cs ! k) then [drop (Suc k) cs] else [])"
  using assms by (simp add: Cons_nth_drop_Suc [symmetric])

lemma regexMatches_anything_until:
  "regexMatches (Seq (Rep 0 None (\<lambda>c. True)) (Chars (\<lambda>x. x = cl))) cs =
   map (\<lambda>k. drop (Suc k) cs) (filter (\<lambda>k. cs ! k = cl) (rev [0..<length cs]))"
proof -
  have tw: "takeWhile (\<lambda>c. True) cs = cs"
    by (induction cs) simp_all
  have m: "repMax None (\<lambda>c. True) cs = length cs"
    by (simp only: repMax_def tw option.case)
  have "regexMatches (Seq (Rep 0 None (\<lambda>c. True)) (Chars (\<lambda>x. x = cl))) cs =
        concat (map (\<lambda>k. regexMatches (Chars (\<lambda>x. x = cl)) (drop k cs)) (rev [0..<Suc (length cs)]))"
    unfolding regexMatches.simps(3) regexMatches_Rep m by (simp add: comp_def)
  also have "\<dots> = concat (map (\<lambda>k. regexMatches (Chars (\<lambda>x. x = cl)) (drop k cs)) (rev [0..<length cs]))"
    by simp
  also have "\<dots> = map (\<lambda>k. drop (Suc k) cs) (filter (\<lambda>k. cs ! k = cl) (rev [0..<length cs]))"
    by (rule concat_map_if_singleton) (simp add: regexMatches_Chars_drop del: regexMatches.simps)
  finally show ?thesis .
qed

lemma regexMatches_delimited:
  "regexMatches (Seq (Chars (\<lambda>x. x = op)) (Seq (Rep 0 None (\<lambda>c. True)) (Chars (\<lambda>x. x = cl)))) (c # cs) =
   (if c = op then map (\<lambda>k. drop (Suc k) cs) (filter (\<lambda>k. cs ! k = cl) (rev [0..<length cs])) else [])"
  unfolding regexMatches.simps(3) [of "Chars (\<lambda>x. x = op)"] regexMatches_anything_until
  by simp

lemma head_of_filter:
  "(case map h (filter P xs) of [] \<Rightarrow> a | t # ts \<Rightarrow> g t) = (case find P xs of None \<Rightarrow> a | Some k \<Rightarrow> g (h k))"
  by (induction xs) auto

lemma find_in_range:
  assumes "find P (rev [0..<n]) = Some k"
  shows "k < n"
proof -
  have "k \<in> set (rev [0..<n])"
    using assms by (metis find_Some_iff nth_mem)
  then show ?thesis by simp
qed

lemma regexExec_jsonSpanRe_step:
  "(case regexMatches jsonSpanRe (c # cs) of
      [] \<Rightarrow> a
    | t # ts \<Rightarrow> Some (take (length (c # cs) - length t) (c # cs))) =
   (case bracketSpanAt (c # cs) of Some m \<Rightarrow> Some m | None \<Rightarrow> a)"
proof -
  have t: "take (length (c # cs) - length (drop (Suc k) cs)) (c # cs) = c # take (Suc k) cs"
    if "k < length cs" for k
    using that by simp
  show ?thesis
  proof (cases "c = 123")
    case True
    then have "regexMatches jsonSpanRe (c # cs) =
        map (\<lambda>k. drop (Suc k) cs) (filter (\<lambda>k. cs ! k = 125) (rev [0..<length cs]))"
      unfolding jsonSpanRe_def regexMatches.simps(4) regexMatches_delimited by simp
    then show ?thesis
      using True
      by (simp add: head_of_filter lastIndexOf_def split: option.splits)
         (auto dest!: find_in_range simp: t)
  next
    case False
    then have "regexMatches jsonSpanRe (c # cs) =
        (if c = 91 then map (\<lambda>k. drop (Suc k) cs) (filter (\<lambda>k. cs ! k = 93) (rev [0..<length cs])) else [])"
      unfolding jsonSpanRe_def regexMatches.simps(4) regexMatches_delimited by simp
    then show ?thesis
      using False
      by (simp add: head_of_filter lastIndexOf_def split: option.splits)
         (auto dest!: find_in_range simp: t)
  qed
qed

lemma regexMatches_jsonSpanRe_Nil: "regexMatches jsonSpanRe [] = []"
  by (simp add: jsonSpanRe_def)

lemma regexExec_jsonSpanRe: "regexExec jsonSpanRe s = firstBracketSpan s"
proof (induction s)
  case Nil
  show ?case by (simp add: regexMatches_jsonSpanRe_Nil)
next
  case (Cons c cs)
  show ?case
    unfolding regexExec.simps regexExec_jsonSpanRe_step firstBracketSpan.simps Cons.IH ..
qed

lemmas json_eval =
  js_def JSON_parse_def lexNumber_def lexSign_def lexInteger_def lexFraction_def lexExponent_def
  digitsValue_def pow10_def isDigit_def hex4_def hexValue_def simpleEscape_def setMember_def

lemma JSON_parse_object_example:
  "JSON_parse (js ''{\"a\":1}'') = Some (JObject [(js ''a'', JNumber 1)])"
  by (simp add: json_eval)

lemma JSON_parse_noise_example: "JSON_parse (js ''noise {\"a\":1} trailing'') = None"
  by (simp add: json_eval)

lemma JSON_parse_prose_example: "JSON_parse (js ''not json at all'') = None"
  by (simp add: json_eval)

lemma firstBracketSpan_noise_example:
  "firstBracketSpan (js ''noise {\"a\":1} trailing'') = Some (js ''{\"a\":1}'')"
  by (simp add: js_def lastIndexOf_def)

lemma firstBracketSpan_prose_example: "firstBracketSpan (js ''not json at all'') = None"
  by (simp add: js_def)

text \<open>
  Claim C1. \<open>extractJSON\<close> returns what \<open>JSON.parse\<close> makes of the whole text when that
  succeeds; otherwise it parses the span that the regular expression cuts out, which is the
  span described by \<open>firstBracketSpan\<close> (from the first opening brace or bracket that has
  its closing character after it, to the last such closing character), and returns the
  result; it returns \<open>null\<close> when that fails too or there is no span. The three examples
  of the specification evaluate as it says.
\<close>

theorem extractJSON_salvage:
  "extractJSON text =
     (case JSON_parse text of
        Some v \<Rightarrow> v
      | None \<Rightarrow>
          (case firstBracketSpan text of
             Some m \<Rightarrow> (case JSON_parse m of Some v \<Rightarrow> v | None \<Rightarrow> JNull)
           | None \<Rightarrow> JNull))
   \<and> extractJSON (js ''{\"a\":1}'') = JObject [(js ''a'', JNumber 1)]
   \<and> extractJSON (js ''noise {\"a\":1} trailing'') = JObject [(js ''a'', JNumber 1)]
   \<and> extractJSON (js ''not json at all'') = JNull"
proof -
  have g: "extractJSON t =
     (case JSON_parse t of
        Some v \<Rightarrow> v
      | None \<Rightarrow>
          (case firstBracketSpan t of
             Some m \<Rightarrow> (case JSON_parse m of Some v \<Rightarrow> v | None \<Rightarrow> JNull)
           | None \<Rightarrow> JNull))" for t
    unfolding extractJSON_def regexExec_jsonSpanRe by (rule refl)
  have "extractJSON (js ''{\"a\":1}'') = JObject [(js ''a'', JNumber 1)]"
    by (simp add: g JSON_parse_object_example)
  moreover have "extractJSON (js ''noise {\"a\":1} trailing'') = JObject [(js ''a'', JNumber 1)]"
    by (simp add: g JSON_parse_noise_example firstBracketSpan_noise_example JSON_parse_object_example)
  moreover have "extractJSON (js ''not json at all'') = JNull"
    by (simp add: g JSON_parse_prose_example firstBracketSpan_prose_example)
  ultimately show ?thesis
    using g [of "text"] by blast
qed

section \<open>extractPhone\<close>



lemma lang_SeqI: "u \<in> lang a \<Longrightarrow> v \<in> lang b \<Longrightarrow> u @ v \<in> lang (Seq a b)"
  by auto

lemma lang_CharsI: "p c \<Longrightarrow> [c] \<in> lang (Chars p)"
  by simp





subsection \<open>The match that is returned\<close>






lemma nth_within_takeWhile:
  assumes "k < length (takeWhile p s)"
  shows "k < length s \<and> p (s ! k)"
proof -
  have "k < length s"
    using assms length_takeWhile_le [of p s] by simp
  moreover have "takeWhile p s ! k = s ! k"
    using assms by (rule takeWhile_nth)
  moreover have "p (takeWhile p s ! k)"
    using assms by (meson nth_mem set_takeWhileD)
  ultimately show ?thesis
    by simp
qed





lemma same_length_prefix:
  assumes "xs @ ys = xs' @ ys'" and "length xs = length xs'"
  shows "xs = xs'" and "ys = ys'"
  using assms by (simp_all add: append_eq_append_conv)








section \<open>Submission when the countdown runs out\<close>

lemma length_sixQuestions: "length sixQuestions = 6"
  by (simp add: sixQuestions_def)

lemma sixQuestions_not_Nil: "sixQuestions \<noteq> []"
  by (simp add: sixQuestions_def)

lemma at_index_sixQuestions:
  "at_index sixQuestions 0 = Some (sampleQuestion ''q1'' Easy)"
  "at_index sixQuestions 1 = Some (sampleQuestion ''q2'' Easy)"
  "at_index sixQuestions 2 = Some (sampleQuestion ''q3'' Medium)"
  "at_index sixQuestions 3 = Some (sampleQuestion ''q4'' Medium)"
  "at_index sixQuestions 4 = Some (sampleQuestion ''q5'' Hard)"
  "at_index sixQuestions 5 = Some (sampleQuestion ''q6'' Hard)"
  "at_index sixQuestions 6 = None"
  by (simp_all add: at_index_def sixQuestions_def)

lemma sampleQuestion_fields:
  "q_id (sampleQuestion i d) = js i"
  "q_difficulty (sampleQuestion i d) = d"
  "q_text (sampleQuestion i d) = js ''Explain the topic.''"
  by (simp_all add: sampleQuestion_def)

lemma sampleCandidate_fields:
  "c_id sampleCandidate = 7" "c_paused sampleCandidate = False" "c_answers sampleCandidate = []"
  "c_currentIndex sampleCandidate = 0" "c_questions sampleCandidate = sixQuestions"
  "c_timer sampleCandidate = None" "c_finalScore sampleCandidate = None"
  by (simp_all add: sampleCandidate_def)

lemma trim_Nil: "trim [] = []"
  by (simp add: trim_def)

lemma tick_expiry_example:
  "tick 21000 (countdownState 1 20000) =
     ((mountedWith
         [sampleCandidate\<lparr>c_answers :=
              [\<lparr>questionId = js ''q1'', questionText = js ''Explain the topic.'', difficulty = Easy,
                responseText = autoSubmittedText, timeTakenSeconds = 19, autoSubmitted = True,
                score = None, feedback = None\<rparr>],
            c_currentIndex := 1\<rparr>])
        \<lparr>active := Some 7, questions := sixQuestions, remaining := 20, submitting := True,
          timerRef := True\<rparr>,
      Some \<lparr>p_active = 7, p_question = sampleQuestion ''q1'' Easy, p_responseText = autoSubmittedText,
            p_currentIndex = 0, p_questions = sixQuestions\<rparr>)"
  by (simp add: countdownState_def tick_def handleSubmitIn_def mountedWith_def updateCandidate_def
      findCandidate_def timerEffect_def startTimer_def at_index_sixQuestions sampleQuestion_fields
      sampleCandidate_fields trim_Nil Let_def length_sixQuestions sixQuestions_not_Nil)

lemma js_not_Nil: "js ''Ada'' \<noteq> []" "js ''ada@example.com'' \<noteq> []" "js ''5551234567'' \<noteq> []"
  by (simp_all add: js_def)

lemma uploaded_eq:
  "uploaded = (mountedWith [sampleCandidate\<lparr>c_questionsLength := 0, c_questions := []\<rparr>])\<lparr>active := Some 7\<rparr>"
  by (simp add: uploaded_def handleUploadFile_def orEmpty_def js_not_Nil mountedWith_def timerEffect_def
      sampleCandidate_def Let_def)

lemma started_eq: "started = countdownState 20 1001"
  by (simp add: started_def uploaded_eq openCandidate_def mountedWith_def findCandidate_def
      sampleCandidate_def length_sixQuestions sixQuestions_not_Nil updateCandidate_def Let_def
      resumeIndex_def reconstructRemaining_def at_index_sixQuestions sampleQuestion_fields
      timerEffect_def startTimer_def countdownState_def)

lemma tick_countdown:
  assumes "1 < r"
  shows "tick now (countdownState r t) = (countdownState (r - 1) now, None)"
  using assms
  by (simp add: countdownState_def tick_def mountedWith_def updateCandidate_def findCandidate_def
      timerEffect_def startTimer_def at_index_sixQuestions sampleQuestion_fields
      sampleCandidate_fields Let_def sixQuestions_not_Nil max_def)

lemma tickTimes_countdown:
  "int n < r \<Longrightarrow> 0 < n \<Longrightarrow> tickTimes n now (countdownState r t) = countdownState (r - int n) (now + 1000 * (int n - 1))"
proof (induction n arbitrary: now r t)
  case 0
  then show ?case by simp
next
  case (Suc n)
  show ?case
  proof (cases "n = 0")
    case True
    then show ?thesis
      using Suc.prems by (simp add: tick_countdown)
  next
    case False
    have "tickTimes (Suc n) now (countdownState r t) = tickTimes n (now + 1000) (countdownState (r - 1) now)"
      using Suc.prems by (simp add: tick_countdown)
    also have "\<dots> = countdownState (r - 1 - int n) (now + 1000 + 1000 * (int n - 1))"
      using Suc.prems False by (intro Suc.IH) simp_all
    finally show ?thesis
      by (simp add: algebra_simps)
  qed
qed

lemma countdown_reaches_one: "tickTimes 19 2000 started = countdownState 1 20000"
  using tickTimes_countdown [of 19 20 2000 1001] by (simp add: started_eq)

lemma tick_expiry:
  assumes "timerRef s" and "active s = Some a" and "findCandidate (candidates s) a = Some c"
    and "at_index (questions s) (currentIndex s) = Some q" and "remaining s \<le> 1"
  shows "findCandidate (candidates (fst (tick now s))) a =
         Some (c\<lparr>c_answers := c_answers c @
                   [\<lparr>questionId = q_id q, questionText = q_text q, difficulty = q_difficulty q,
                     responseText = (if trim (heldAnswer s) = [] then autoSubmittedText else heldAnswer s),
                     timeTakenSeconds = difficultySeconds (q_difficulty q) - heldRemaining s,
                     autoSubmitted = True, score = None, feedback = None\<rparr>],
                 c_currentIndex := c_currentIndex c + 1, c_timer := None\<rparr>)"
  using assms
  by (simp add: tick_def handleSubmitIn_def Let_def candidates_timerEffect candidates_updateCandidate
      findCandidate_map del: map_map List.map.compositionality)

lemma handleSubmitGraded_advances:
  assumes "at_index (p_questions p) (p_currentIndex p + 1) = Some nextQ"
  shows "currentIndex (fst (handleSubmitGraded p grade now s)) = p_currentIndex p + 1"
  using assms
  by (simp add: handleSubmitGraded_def Let_def timerEffect_def startTimer_def updateCandidate_def
      split: option.splits prod.splits)

text \<open>
  Claim C3, evaluated. A resume is uploaded, the six questions arrive, and the countdown of the
  first question (easy, budget 20) runs out with nothing typed: nineteen firings of the
  interval bring the remaining time to 1, and the twentieth submits. The answer recorded has
  the response \<open>[AUTO SUBMITTED]\<close> and \<open>autoSubmitted = true\<close>, and its
  \<open>timeTakenSeconds\<close> is 19, not the budget 20: \<open>handleSubmit\<close> subtracts the remaining
  time of the render, which is still 1 when the updater of \<open>setRemaining\<close> calls it
  (\<open>tick_expiry\<close> is the general statement).
\<close>

theorem autoSubmit_timeTaken_example:
  "map c_answers (candidates (fst (tick 21000 (tickTimes 19 2000 started)))) =
     [[\<lparr>questionId = js ''q1'', questionText = js ''Explain the topic.'', difficulty = Easy,
        responseText = js ''[AUTO SUBMITTED]'', timeTakenSeconds = 19, autoSubmitted = True,
        score = None, feedback = None\<rparr>]]
   \<and> difficultySeconds Easy = 20"
  by (simp add: countdown_reaches_one tick_expiry_example mountedWith_def autoSubmittedText_def)

section \<open>The number of answers of a candidate\<close>

lemma difficultySeconds_pos: "0 < difficultySeconds d"
  by (cases d) simp_all

lemma trim_answer: "trim (js ''An answer.'') \<noteq> []"
  by (simp add: trim_def js_def isWhiteSpace_def)

lemma at_index_nth: "i < length xs \<Longrightarrow> at_index xs i = Some (xs ! i)"
  by (simp add: at_index_def)

lemma setLastGrade_snoc: "setLastGrade sc fb (xs @ [x]) = xs @ [x\<lparr>score := sc, feedback := fb\<rparr>]"
  by (simp add: setLastGrade_def)

lemma started_interviewAt: "started = interviewAt 0 1001"
  by (simp add: started_eq countdownState_def interviewAt_def sixQuestions_def sampleQuestion_def
      sampleCandidate_def mountedWith_def)

lemma clickSubmit_interviewAt:
  assumes "i < 6"
  shows "clickSubmit (typeAnswer (js ''An answer.'') (interviewAt i t)) =
     ((mountedWith
         [sampleCandidate\<lparr>c_currentIndex := Suc i,
            c_answers := map manualAnswer (take i sixQuestions) @
               [(manualAnswer (sixQuestions ! i))\<lparr>score := None, feedback := None\<rparr>]\<rparr>])
        \<lparr>active := Some 7, questions := sixQuestions, currentIndex := i,
          remaining := difficultySeconds (q_difficulty (sixQuestions ! i)), submitting := True,
          timerRef := True,
          heldRemaining := difficultySeconds (q_difficulty (sixQuestions ! i))\<rparr>,
      Some (pendingAt i))"
  using assms difficultySeconds_pos [of "q_difficulty (sixQuestions ! i)"]
  by (simp add: clickSubmit_def typeAnswer_def submitDisabled_def activePaused_def handleSubmit_def
      handleSubmitIn_def interviewAt_def mountedWith_def findCandidate_def sampleCandidate_fields
      trim_answer at_index_nth length_sixQuestions updateCandidate_def timerEffect_def
      startTimer_def sixQuestions_not_Nil manualAnswer_def pendingAt_def Let_def)

lemma manualAnswer_graded:
  "(manualAnswer q)\<lparr>score := Some 7, feedback := Some (js ''Good.'')\<rparr> = manualAnswer q"
  by (simp add: manualAnswer_def)

lemma answerRound_next:
  assumes "i < 5"
  shows "answerRound now (interviewAt i t) = Some (interviewAt (i + 1) now, pendingAt i, False)"
proof -
  have i: "i < 6"
    using assms by simp
  have t: "take (Suc i) sixQuestions = take i sixQuestions @ [sixQuestions ! i]"
    using i by (simp add: take_Suc_conv_app_nth length_sixQuestions)
  show ?thesis
    unfolding answerRound_def clickSubmit_interviewAt [OF i]
    using assms
    by (simp add: handleSubmitGraded_def pendingAt_def
        at_index_nth length_sixQuestions updateCandidate_def mountedWith_def sampleCandidate_fields
        setLastGrade_snoc manualAnswer_graded timerEffect_def startTimer_def findCandidate_def
        sixQuestions_not_Nil interviewAt_def t Let_def)
qed

lemma answerRound_last:
  "answerRound now (interviewAt 5 t) = Some (awaitingSummary, pendingAt 5, True)"
proof -
  have t: "sixQuestions = take 5 sixQuestions @ [sixQuestions ! 5]"
    by (simp add: sixQuestions_def)
  have m: "map manualAnswer (take 5 sixQuestions) @ [manualAnswer (sixQuestions ! 5)] =
           map manualAnswer sixQuestions"
    by (subst (3) t) simp
  have d: "difficultySeconds (q_difficulty (sixQuestions ! 5)) = 120"
    by (simp add: sixQuestions_def sampleQuestion_def)
  show ?thesis
    unfolding answerRound_def clickSubmit_interviewAt [of 5, simplified]
    by (simp add: handleSubmitGraded_def pendingAt_def sampleQuestion_fields
        at_index_sixQuestions updateCandidate_def mountedWith_def sampleCandidate_fields
        setLastGrade_snoc manualAnswer_graded timerEffect_def startTimer_def findCandidate_def
        sixQuestions_not_Nil awaitingSummary_def m d at_index_nth length_sixQuestions Let_def)
qed

lemma sessionAfter_numeral:
  "sessionAfter (numeral k) now s =
     (case answerRound now s of
        None \<Rightarrow> None
      | Some (s1, p, final) \<Rightarrow> sessionAfter (pred_numeral k) (now + 5000) s1)"
  by (simp add: numeral_eq_Suc)

lemma sessionAfter_1:
  "sessionAfter 1 now s =
     (case answerRound now s of
        None \<Rightarrow> None
      | Some (s1, p, final) \<Rightarrow> sessionAfter 0 (now + 5000) s1)"
  by simp

lemma session_reaches_summary:
  "sessionAfter 5 3000 started = Some (awaitingSummary, pendingAt 5, True)"
proof -
  have n: "answerRound now (interviewAt i t) = Some (interviewAt j now, pendingAt i, False)"
    if "i < 5" and "j = i + 1" for i j now t
    using answerRound_next [OF that(1)] that(2) by simp
  have r: "answerRound now (interviewAt 0 t) = Some (interviewAt 1 now, pendingAt 0, False)"
    "answerRound now (interviewAt 1 t) = Some (interviewAt 2 now, pendingAt 1, False)"
    "answerRound now (interviewAt 2 t) = Some (interviewAt 3 now, pendingAt 2, False)"
    "answerRound now (interviewAt 3 t) = Some (interviewAt 4 now, pendingAt 3, False)"
    "answerRound now (interviewAt 4 t) = Some (interviewAt 5 now, pendingAt 4, False)" for now t
    by (rule n; simp)+
  show ?thesis
    by (simp add: started_interviewAt sessionAfter_numeral sessionAfter_1 r answerRound_last
        del: One_nat_def)
qed

lemma summary_completes:
  "handleSubmitSummarized (pendingAt 5) (Some (Some 70, Some (js ''Solid.''))) awaitingSummary =
   completedPage"
  by (simp add: handleSubmitSummarized_def awaitingSummary_def completedPage_def pendingAt_def
      updateCandidate_def mountedWith_def sampleCandidate_fields length_sixQuestions
      timerEffect_def startTimer_def findCandidate_def sixQuestions_not_Nil at_index_sixQuestions
      sampleQuestion_fields Let_def)

lemma view_completed:
  "handleOpenCandidate 7 True None 60000 60001 completedPage =
     (mountedWith
        [sampleCandidate\<lparr>c_currentIndex := 6, c_answers := map manualAnswer sixQuestions,
           c_finalScore := Some 70, c_summary := Some (js ''Solid.''),
           c_timer := Some \<lparr>t_questionIndex = Some 6, t_remaining = Some 0, t_lastUpdated = 60001\<rparr>\<rparr>])
       \<lparr>active := Some 7, questions := sixQuestions, currentIndex := 5, remaining := 0,
         timerRef := True\<rparr>"
  by (simp add: handleOpenCandidate_def openCandidate_def completedPage_def mountedWith_def
      findCandidate_def sampleCandidate_fields sixQuestions_not_Nil resumeIndex_def
      reconstructRemaining_def at_index_sixQuestions length_sixQuestions updateCandidate_def
      timerEffect_def startTimer_def sampleQuestion_fields Let_def)

lemma handleSubmitIn_without_question:
  assumes "at_index (questions cl) (currentIndex cl) = None"
  shows "candidates (fst (handleSubmitIn cl auto s)) = candidates s"
  using assms by (simp add: handleSubmitIn_def split: option.splits)

lemma handleSubmitIn_appends_one:
  assumes "active cl = Some a" and "findCandidate (candidates cl) a = Some c0"
    and "at_index (questions cl) (currentIndex cl) = Some q"
    and "findCandidate (candidates s) a = Some c"
  shows "\<exists>new. findCandidate (candidates (fst (handleSubmitIn cl auto s))) a =
           Some (c\<lparr>c_answers := c_answers c @ [new], c_currentIndex := c_currentIndex c + 1,
                   c_timer := None\<rparr>)"
  using assms
  by (auto simp: handleSubmitIn_def Let_def candidates_timerEffect candidates_updateCandidate
      findCandidate_map)

text \<open>
  Claim C4, evaluated. A resume is uploaded, the six questions are answered one after the
  other and the final summary arrives: the candidate has six answers for six questions and
  \<open>currentIndex = 6\<close>. The candidate is then opened again from the list of sessions
  (\<open>handleOpenCandidate\<close>), which sets the index of the page to
  \<open>Math.min(6, 5) = 5\<close> and the remaining time to 0 and starts the timer; the first
  firing of the interval submits the sixth question once more. The candidate record then
  has seven answers for six questions, and \<open>currentIndex = 7\<close>. (Each submission does
  append one answer and add one to \<open>currentIndex\<close>, and none is appended without a
  question at the index of the page: \<open>handleSubmitIn_appends_one\<close>,
  \<open>handleSubmitIn_without_question\<close>.)
\<close>

theorem completed_candidate_gets_seventh_answer:
  "sessionAfter 5 3000 started = Some (awaitingSummary, pendingAt 5, True)
   \<and> handleSubmitSummarized (pendingAt 5) (Some (Some 70, Some (js ''Solid.''))) awaitingSummary =
       completedPage
   \<and> map (\<lambda>c. (length (c_answers c), length (c_questions c), c_currentIndex c))
         (candidates completedPage) = [(6, 6, 6)]
   \<and> map (\<lambda>c. (length (c_answers c), length (c_questions c), c_currentIndex c))
         (candidates (fst (tick 61000 (handleOpenCandidate 7 True None 60000 60001 completedPage)))) =
       [(7, 6, 7)]"
proof -
  have "map (\<lambda>c. (length (c_answers c), length (c_questions c), c_currentIndex c))
         (candidates completedPage) = [(6, 6, 6)]"
    by (simp add: completedPage_def mountedWith_def sampleCandidate_fields length_sixQuestions)
  moreover have "map (\<lambda>c. (length (c_answers c), length (c_questions c), c_currentIndex c))
         (candidates (fst (tick 61000 (handleOpenCandidate 7 True None 60000 60001 completedPage)))) =
       [(7, 6, 7)]"
    by (simp add: view_completed tick_def handleSubmitIn_def mountedWith_def updateCandidate_def
        findCandidate_def sampleCandidate_fields at_index_sixQuestions candidates_timerEffect
        length_sixQuestions Let_def)
  ultimately show ?thesis
    using session_reaches_summary summary_completes by simp
qed

section \<open>extractName\<close>

subsection \<open>The loop over the lines\<close>

declare nameLoop.simps [simp del]

lemma nameLoop_find: "nameLoop lines i = find nameLike (take (6 - i) (drop i lines))"
proof (induction lines i rule: nameLoop.induct)
  case (1 lines i)
  show ?case
  proof (cases "i < min 6 (length lines)")
    case False
    then have e: "take (6 - i) (drop i lines) = []"
      by auto
    have "nameLoop lines i = None"
      using False by (auto simp: nameLoop.simps [of lines i])
    then show ?thesis
      unfolding e by simp
  next
    case True
    then have d: "drop i lines = lines ! i # drop (Suc i) lines"
      by (simp add: Cons_nth_drop_Suc)
    have t: "take (6 - i) (drop i lines) = lines ! i # take (6 - Suc i) (drop (Suc i) lines)"
      using True by (simp add: d take_Cons')
    show ?thesis
    proof (cases "nameLike (lines ! i)")
      case n: True
      with True show ?thesis
        by (simp add: nameLoop.simps [of lines i] t)
    next
      case n: False
      with True "1.IH" show ?thesis
        by (simp add: nameLoop.simps [of lines i] t)
    qed
  qed
qed

subsection \<open>The lines and the pieces of a line\<close>

lemma length_splitOn: "length (splitOn sep cur s) = count_list s sep + 1"
  by (induction s arbitrary: cur) simp_all

lemma dropWhile_snoc_ws:
  assumes "isWhiteSpace c"
  shows "dropWhile isWhiteSpace (rev (dropWhile isWhiteSpace (xs @ [c]))) =
         dropWhile isWhiteSpace (rev (dropWhile isWhiteSpace xs))"
proof (cases "\<forall>x \<in> set xs. isWhiteSpace x")
  case True
  then have a: "dropWhile isWhiteSpace xs = []" and b: "dropWhile isWhiteSpace (xs @ [c]) = []"
    using assms by simp_all
  show ?thesis
    unfolding a b by simp
next
  case False
  then obtain x where "x \<in> set xs" and "\<not> isWhiteSpace x"
    by blast
  then have "dropWhile isWhiteSpace (xs @ [c]) = dropWhile isWhiteSpace xs @ [c]"
    by (rule dropWhile_append1)
  then show ?thesis
    using assms by simp
qed

lemma trim_snoc_ws: "isWhiteSpace c \<Longrightarrow> trim (xs @ [c]) = trim xs"
  by (simp add: trim_def dropWhile_snoc_ws)

lemma regexMatches_lineBreakRe:
  "regexMatches lineBreakRe (c # cs) =
     (if c = 13 \<and> cs \<noteq> [] \<and> hd cs = 10 then [tl cs] else if c = 10 then [cs] else [])"
  by (cases cs) (auto simp: lineBreakRe_def Let_def)

lemma trim_regexSplit:
  "r = lineBreakRe \<Longrightarrow> map trim (regexSplit r cur s) = map trim (splitOn 10 cur s)"
proof (induction r cur s rule: regexSplit.induct)
  case (1 r cur)
  show ?case by simp
next
  case (2 r cur c cs)
  note r = \<open>r = lineBreakRe\<close>
  show ?case
  proof (cases "c = 13 \<and> cs \<noteq> [] \<and> hd cs = 10")
    case True
    then obtain rest where cs: "cs = 10 # rest"
      by (cases cs) auto
    have m: "regexMatches lineBreakRe (c # cs) = [rest]"
      using True cs by (simp add: regexMatches_lineBreakRe)
    have "map trim (regexSplit lineBreakRe [] rest) = map trim (splitOn 10 [] rest)"
      using "2.IH"(2) [of rest "[]"] m r by (simp add: cs)
    moreover have "trim (rev cur @ [13]) = trim (rev cur)"
      by (rule trim_snoc_ws) (simp add: isWhiteSpace_def)
    ultimately show ?thesis
      using True cs m r by simp
  next
    case False
    show ?thesis
    proof (cases "c = 10")
      case True
      then have m: "regexMatches lineBreakRe (c # cs) = [cs]"
        using False by (simp add: regexMatches_lineBreakRe)
      have "map trim (regexSplit lineBreakRe [] cs) = map trim (splitOn 10 [] cs)"
        using "2.IH"(2) [of cs "[]"] m r by simp
      then show ?thesis
        using True m r by simp
    next
      case c: False
      then have m: "regexMatches lineBreakRe (c # cs) = []"
        using False by (simp add: regexMatches_lineBreakRe)
      have "map trim (regexSplit lineBreakRe (c # cur) cs) = map trim (splitOn 10 (c # cur) cs)"
        using "2.IH"(1) m r by simp
      then show ?thesis
        using c m r by simp
    qed
  qed
qed

lemma nameLines_trimmedLines: "nameLines text = trimmedLines text"
  by (simp add: nameLines_def trimmedLines_def trim_regexSplit)


subsection \<open>The two tests\<close>

lemma regexTest_lang: "regexTest r s \<longleftrightarrow> (\<exists>w \<in> lang r. occursIn w s)"
proof
  assume "regexTest r s"
  then obtain m where "regexExec r s = Some m"
    by (auto simp: regexTest_def)
  then show "\<exists>w \<in> lang r. occursIn w s"
    using regexExec_Some_lang [of r s m] by (auto simp: occursIn_def)
next
  assume "\<exists>w \<in> lang r. occursIn w s"
  then obtain w pre post where "w \<in> lang r" and "s = pre @ w @ post"
    by (auto simp: occursIn_def)
  then show "regexTest r s"
    using regexExec_substring [of w r pre post] by (simp add: regexTest_def)
qed

lemma ignoreCase_lowerAscii:
  assumes "isLower l"
  shows "ignoreCase l c \<longleftrightarrow> lowerAscii c = l"
  using assms by (auto simp: ignoreCase_def lowerAscii_def isLower_def isUpper_def)

lemma lang_Seq_Chars: "lang (Seq (Chars p) r) = {c # v | c v. p c \<and> v \<in> lang r}"
proof (intro set_eqI iffI)
  fix w
  assume "w \<in> lang (Seq (Chars p) r)"
  then obtain c v where "w = [c] @ v" and "p c" and "v \<in> lang r"
    by auto
  then show "w \<in> {c # v | c v. p c \<and> v \<in> lang r}"
    by simp
next
  fix w
  assume "w \<in> {c # v | c v. p c \<and> v \<in> lang r}"
  then obtain c v where w: "w = c # v" and "p c" and "v \<in> lang r"
    by auto
  then have "[c] @ v \<in> lang (Seq (Chars p) r)"
    by (intro lang_SeqI lang_CharsI)
  then show "w \<in> lang (Seq (Chars p) r)"
    by (simp only: w append_Cons append_Nil)
qed

lemma lang_resumeRe: "lang resumeRe = {w. map lowerAscii w = js ''resume''}"
proof -
  have l: "isLower 114" "isLower 101" "isLower 115" "isLower 117" "isLower 109"
    by (simp_all add: isLower_def)
  show ?thesis
    unfolding resumeRe_def lang_Seq_Chars lang.simps(1)
    by (auto simp: ignoreCase_lowerAscii l js_def map_eq_Cons_conv)
qed

lemma occursIn_Nil: "occursIn u [] \<longleftrightarrow> u = []"
  by (auto simp: occursIn_def)

lemma occursIn_Cons:
  "occursIn u (c # cs) \<longleftrightarrow> (\<exists>post. c # cs = u @ post) \<or> occursIn u cs"
proof
  assume "occursIn u (c # cs)"
  then obtain pre post where e: "c # cs = pre @ u @ post"
    by (auto simp: occursIn_def)
  show "(\<exists>post. c # cs = u @ post) \<or> occursIn u cs"
  proof (cases pre)
    case Nil
    with e show ?thesis by auto
  next
    case (Cons d pre')
    with e have "cs = pre' @ u @ post" by simp
    then show ?thesis by (auto simp: occursIn_def)
  qed
next
  assume "(\<exists>post. c # cs = u @ post) \<or> occursIn u cs"
  then show "occursIn u (c # cs)"
  proof
    assume "\<exists>post. c # cs = u @ post"
    then obtain post where "c # cs = [] @ u @ post" by auto
    then show ?thesis unfolding occursIn_def by blast
  next
    assume "occursIn u cs"
    then obtain pre post where "cs = pre @ u @ post" by (auto simp: occursIn_def)
    then have "c # cs = (c # pre) @ u @ post" by simp
    then show ?thesis unfolding occursIn_def by blast
  qed
qed

lemma containsFolded_occursIn:
  "containsFolded w s \<longleftrightarrow> (\<exists>u. occursIn u s \<and> map lowerAscii u = w)"
proof (induction s)
  case Nil
  show ?case
    by (auto simp: occursIn_Nil)
next
  case (Cons c cs)
  have "map lowerAscii (take (length w) (c # cs)) = w \<longleftrightarrow>
        (\<exists>u post. c # cs = u @ post \<and> map lowerAscii u = w)"
  proof
    assume a: "map lowerAscii (take (length w) (c # cs)) = w"
    have "c # cs = take (length w) (c # cs) @ drop (length w) (c # cs)"
      by simp
    with a show "\<exists>u post. c # cs = u @ post \<and> map lowerAscii u = w"
      by blast
  next
    assume "\<exists>u post. c # cs = u @ post \<and> map lowerAscii u = w"
    then obtain u post where e: "c # cs = u @ post" and m: "map lowerAscii u = w"
      by blast
    have "length u = length w"
      using m by auto
    then have "take (length w) (c # cs) = u"
      by (simp add: e)
    then show "map lowerAscii (take (length w) (c # cs)) = w"
      using m by simp
  qed
  then show ?case
    unfolding containsFolded.simps Cons.IH occursIn_Cons by blast
qed

lemma regexTest_resumeRe: "regexTest resumeRe s \<longleftrightarrow> containsFolded (js ''resume'') s"
  unfolding regexTest_lang lang_resumeRe containsFolded_occursIn by blast

lemma occursIn_single: "occursIn [c] s \<longleftrightarrow> c \<in> set s"
  by (auto simp: occursIn_def in_set_conv_decomp)

lemma regexTest_letterRe: "regexTest letterRe s \<longleftrightarrow> hasLetter s"
  unfolding regexTest_lang letterRe_def hasLetter_def
  by (auto simp: occursIn_single list_ex_iff)

lemma nameLike_codeNameLike: "nameLike s \<longleftrightarrow> codeNameLike s"
  by (simp add: nameLike_def codeNameLike_def regexTest_resumeRe regexTest_letterRe length_splitOn)

lemma extractName_find:
  "extractName text = find codeNameLike (take 6 (trimmedLines text))"
proof -
  have "nameLike = codeNameLike"
    by (rule ext) (rule nameLike_codeNameLike)
  then show ?thesis
    by (simp add: extractName_def nameLoop_find nameLines_trimmedLines)
qed

text \<open>
  Claim C5, as the code has it. \<open>extractName\<close> looks at the first six non-blank trimmed
  lines and returns the first that does not contain \<open>resume\<close> in any case, has a letter
  \<open>A-Z\<close> or \<open>a-z\<close>, and has at most three space characters, which is what
  \<open>s.split(" ").length <= 4\<close> tests; it returns \<open>null\<close> when none of the six does.
\<close>

theorem extractName_first_of_six:
  "extractName text = find codeNameLike (take 6 (trimmedLines text))"
  by (rule extractName_find)

theorem extractName_first_of_six_witness:
  "extractName (js ''RESUME'' @ [13, 10, 13, 10] @ js ''  Ada Lovelace '' @ [10] @ js ''ada@example.com'') =
     Some (js ''Ada Lovelace'')
   \<and> extractName (js ''1'' @ [10] @ js ''2'' @ [10] @ js ''3'' @ [10] @ js ''4'' @ [10] @ js ''5'' @ [10]
        @ js ''6'' @ [10] @ js ''Ada Lovelace'') = None"
proof -
  have "find codeNameLike (take 6 (trimmedLines
          (js ''RESUME'' @ [13, 10, 13, 10] @ js ''  Ada Lovelace '' @ [10] @ js ''ada@example.com''))) =
        Some (js ''Ada Lovelace'')"
    by (simp add: trimmedLines_def trim_def js_def isWhiteSpace_def codeNameLike_def hasLetter_def
        lowerAscii_def isUpper_def isLower_def)
  moreover have "find codeNameLike (take 6 (trimmedLines
          (js ''1'' @ [10] @ js ''2'' @ [10] @ js ''3'' @ [10] @ js ''4'' @ [10] @ js ''5'' @ [10]
           @ js ''6'' @ [10] @ js ''Ada Lovelace''))) = None"
    by (simp add: trimmedLines_def trim_def js_def isWhiteSpace_def codeNameLike_def hasLetter_def
        lowerAscii_def isUpper_def isLower_def)
  ultimately show ?thesis
    using extractName_first_of_six by simp
qed

text \<open>
  The claim as it is written fails on a line whose words are two spaces apart: it has three
  tokens between whitespace, so the function of the specification returns it, and it has
  four space characters, so the code passes it over.
\<close>

lemma trimmedLines_example:
  "trimmedLines (js ''Ada  M.  Lovelace'') = [js ''Ada  M.  Lovelace'']"
  by (simp add: trimmedLines_def trim_def js_def isWhiteSpace_def)

theorem extractName_tokens_counterexample:
  "claimedName (js ''Ada  M.  Lovelace'') = Some (js ''Ada  M.  Lovelace'')
   \<and> length (whitespaceTokens (js ''Ada  M.  Lovelace'')) = 3
   \<and> extractName (js ''Ada  M.  Lovelace'') = None"
proof -
  have "claimedNameLike (js ''Ada  M.  Lovelace'')"
    by (simp add: claimedNameLike_def hasLetter_def whitespaceTokens_def js_def lowerAscii_def
        isUpper_def isLower_def isWhiteSpace_def)
  then have "claimedName (js ''Ada  M.  Lovelace'') = Some (js ''Ada  M.  Lovelace'')"
    by (simp add: claimedName_def trimmedLines_example)
  moreover have "length (whitespaceTokens (js ''Ada  M.  Lovelace'')) = 3"
    by (simp add: whitespaceTokens_def js_def isWhiteSpace_def)
  moreover have "\<not> codeNameLike (js ''Ada  M.  Lovelace'')"
    by (simp add: codeNameLike_def js_def)
  then have "extractName (js ''Ada  M.  Lovelace'') = None"
    by (simp add: extractName_find trimmedLines_example)
  ultimately show ?thesis
    by simp
qed

section \<open>extractEmail\<close>

subsection \<open>The first match of a greedy quantifier\<close>

lemma regexMatches_Seq_Chars:
  "regexMatches (Seq (Chars p) r) (c # cs) = (if p c then regexMatches r cs else [])"
  by simp

lemma regexMatches_Seq_Chars_Nil: "regexMatches (Seq (Chars p) r) [] = []"
  by simp

lemma rev_upt_split:
  assumes "lo \<le> k0" and "k0 \<le> m"
  shows "rev [lo..<Suc m] = rev [Suc k0..<Suc m] @ k0 # rev [lo..<k0]"
proof -
  have "[lo..<k0 + (Suc m - k0)] = [lo..<k0] @ [k0..<k0 + (Suc m - k0)]"
    using assms(1) by (rule upt_add_eq_append)
  then have "[lo..<Suc m] = [lo..<k0] @ [k0..<Suc m]"
    using assms(2) by simp
  also have "[k0..<Suc m] = k0 # [Suc k0..<Suc m]"
    using assms by (simp add: upt_conv_Cons)
  finally show ?thesis
    by simp
qed

lemma concat_map_all_Nil:
  assumes "\<And>x. x \<in> set xs \<Longrightarrow> f x = []"
  shows "concat (map f xs) = []"
  using assms by (induction xs) simp_all

lemma regexMatches_Rep_Seq_first:
  assumes lo: "lo \<le> k0" and hi: "k0 \<le> repMax hi p s"
    and here: "regexMatches b (drop k0 s) = t # ts"
    and longer: "\<And>k. k0 < k \<Longrightarrow> k \<le> repMax hi p s \<Longrightarrow> regexMatches b (drop k s) = []"
  shows "\<exists>ts'. regexMatches (Seq (Rep lo hi p) b) s = t # ts'"
proof -
  let ?f = "\<lambda>k. regexMatches b (drop k s)"
  have "regexMatches (Seq (Rep lo hi p) b) s = concat (map ?f (rev [lo..<Suc (repMax hi p s)]))"
    unfolding regexMatches.simps(3) regexMatches_Rep by (simp add: comp_def)
  also have "\<dots> = concat (map ?f (rev [Suc k0..<Suc (repMax hi p s)])) @ ?f k0 @
                     concat (map ?f (rev [lo..<k0]))"
    unfolding rev_upt_split [OF lo hi] by simp
  also have "concat (map ?f (rev [Suc k0..<Suc (repMax hi p s)])) = []"
    by (rule concat_map_all_Nil) (auto intro: longer)
  finally show ?thesis
    by (simp add: here)
qed

subsection \<open>The regular expression of extractEmail\<close>

lemma emailRe_parts:
  "emailRe = Seq (Rep 1 None emailLocal) (Seq (Chars (\<lambda>c. c = 64)) emailHostRe)"
  by (simp add: emailRe_def emailHostRe_def emailTailRe_def)

lemma email_classes:
  "\<not> emailLocal 64" "emailDomain 46" "isLower c \<Longrightarrow> emailDomain c" "isLower c \<Longrightarrow> c \<noteq> 46"
  by (auto simp: emailLocal_def emailDomain_def isLower_def isUpper_def isDigit_def)

lemma takeWhile_all_then_stop:
  assumes "list_all p xs" and "ys = [] \<or> \<not> p (hd ys)"
  shows "takeWhile p (xs @ ys) = xs"
proof -
  have "takeWhile p ys = []"
    using assms(2) by (cases ys) auto
  then show ?thesis
    using assms(1) by (simp add: takeWhile_append2 list_all_iff)
qed

lemma emailTail_here:
  assumes "list_all isLower t" and "2 \<le> length t" and "post = [] \<or> \<not> emailDomain (hd post)"
  shows "\<exists>ts. regexMatches emailTailRe (46 # t @ post) = post # ts"
proof -
  have "post = [] \<or> \<not> isLower (hd post)"
    using assms(3) email_classes(3) by blast
  then have "takeWhile isLower (t @ post) = t"
    using assms(1) by (intro takeWhile_all_then_stop)
  then have m: "repMax None isLower (t @ post) = length t"
    by (simp add: repMax_def)
  have "rev [2..<Suc (length t)] = length t # rev [2..<length t]"
    using assms(2) by simp
  then have "regexMatches (Rep 2 None isLower) (t @ post) = post # map (\<lambda>k. drop k (t @ post)) (rev [2..<length t])"
    unfolding regexMatches_Rep m by simp
  then show ?thesis
    unfolding emailTailRe_def regexMatches_Seq_Chars by simp
qed

lemma emailTail_not_here:
  assumes "s = [] \<or> hd s \<noteq> 46"
  shows "regexMatches emailTailRe s = []"
  using assms unfolding emailTailRe_def by (cases s) auto

lemma emailHost_here:
  assumes d: "d \<noteq> []" "list_all emailDomain d"
    and t: "list_all isLower t" "2 \<le> length t"
    and post: "post = [] \<or> \<not> emailDomain (hd post)"
  shows "\<exists>ts. regexMatches emailHostRe (d @ 46 # t @ post) = post # ts"
proof -
  let ?s = "d @ 46 # t @ post"
  have all: "list_all emailDomain (d @ 46 # t)"
    using d(2) t(1) email_classes(2,3) by (auto simp: list_all_iff)
  have "takeWhile emailDomain ((d @ 46 # t) @ post) = d @ 46 # t"
    using all post by (rule takeWhile_all_then_stop)
  then have m: "repMax None emailDomain ?s = length d + 1 + length t"
    by (simp add: repMax_def)
  obtain ts where here: "regexMatches emailTailRe (drop (length d) ?s) = post # ts"
    using emailTail_here [OF t post] by auto
  have longer: "regexMatches emailTailRe (drop k ?s) = []"
    if "length d < k" and "k \<le> repMax None emailDomain ?s" for k
  proof (rule emailTail_not_here)
    define j where "j = k - length d - 1"
    have k: "k = length d + 1 + j" and j: "j \<le> length t"
      using that by (simp_all add: j_def m)
    have e: "drop k ?s = drop j t @ post"
      using j by (simp add: k)
    show "drop k ?s = [] \<or> hd (drop k ?s) \<noteq> 46"
    proof (cases "j < length t")
      case True
      then have "hd (drop j t @ post) = t ! j"
        by (simp add: hd_append hd_drop_conv_nth)
      then have "hd (drop k ?s) = t ! j"
        unfolding e .
      moreover have "isLower (t ! j)"
        using t(1) True by (simp add: list_all_length)
      ultimately show ?thesis
        using email_classes(4) by simp
    next
      case False
      then have "drop j t @ post = post"
        using j by simp
      then have "drop k ?s = post"
        unfolding e .
      then show ?thesis
        using post email_classes(2) by auto
    qed
  qed
  have "1 \<le> length d"
    using d(1) by (cases d) simp_all
  moreover have "length d \<le> repMax None emailDomain ?s"
    by (simp add: m)
  ultimately show ?thesis
    unfolding emailHostRe_def
    using regexMatches_Rep_Seq_first [OF _ _ here longer] by blast
qed

lemma emailRe_here:
  assumes "emailParts l d t" and post: "post = [] \<or> \<not> emailDomain (hd post)"
  shows "\<exists>ts. regexMatches emailRe (emailAddress l d t @ post) = post # ts"
proof -
  let ?rest = "d @ 46 # t @ post"
  let ?s = "l @ 64 # ?rest"
  have l: "l \<noteq> []" "list_all emailLocal l" and d: "d \<noteq> []" "list_all emailDomain d"
    and t: "list_all isLower t" "2 \<le> length t"
    using assms(1) by (simp_all add: emailParts_def)
  have "takeWhile emailLocal (l @ 64 # ?rest) = l"
    using l(2) email_classes(1) by (intro takeWhile_all_then_stop) simp_all
  then have m: "repMax None emailLocal ?s = length l"
    by (simp add: repMax_def)
  obtain ts where "regexMatches emailHostRe ?rest = post # ts"
    using emailHost_here [OF d t post] by auto
  then have here: "regexMatches (Seq (Chars (\<lambda>c. c = 64)) emailHostRe) (drop (length l) ?s) = post # ts"
    by simp
  have "\<exists>ts'. regexMatches (Seq (Rep 1 None emailLocal) (Seq (Chars (\<lambda>c. c = 64)) emailHostRe)) ?s =
          post # ts'"
  proof (rule regexMatches_Rep_Seq_first [OF _ _ here])
    show "1 \<le> length l"
      using l(1) by (cases l) simp_all
    show "length l \<le> repMax None emailLocal ?s"
      by (simp only: m)
    show "regexMatches (Seq (Chars (\<lambda>c. c = 64)) emailHostRe) (drop k ?s) = []"
      if "length l < k" and "k \<le> repMax None emailLocal ?s" for k
      using that by (simp only: m)
  qed
  then show ?thesis
    by (simp add: emailAddress_def emailRe_parts)
qed

lemma lang_Rep_unbounded: "lang (Rep n None p) = {w. list_all p w \<and> n \<le> length w}"
  by (auto simp: list_all_iff)

lemma lang_emailRe: "lang emailRe = {w. emailLike w}"
proof (intro set_eqI iffI)
  fix w
  assume "w \<in> lang emailRe"
  then obtain l d t where "w = l @ [64] @ d @ [46] @ t" "list_all emailLocal l" "1 \<le> length l"
      "list_all emailDomain d" "1 \<le> length d" "list_all isLower t" "2 \<le> length t"
    unfolding emailRe_def lang.simps(3) lang_Rep_unbounded lang.simps(1) by auto
  then have "emailParts l d t" and "w = emailAddress l d t"
    by (auto simp: emailParts_def emailAddress_def)
  then show "w \<in> {w. emailLike w}"
    unfolding emailLike_def by blast
next
  fix w
  assume "w \<in> {w. emailLike w}"
  then obtain l d t where p: "emailParts l d t" and w: "w = emailAddress l d t"
    unfolding emailLike_def by blast
  have "l \<in> lang (Rep 1 None emailLocal)" "d \<in> lang (Rep 1 None emailDomain)"
    "t \<in> lang (Rep 2 None isLower)"
    unfolding lang_Rep_unbounded using p by (auto simp: emailParts_def Suc_le_eq)
  then have "l @ [64] @ d @ [46] @ t \<in> lang emailRe"
    unfolding emailRe_def by (intro lang_SeqI lang_CharsI) simp_all
  then show "w \<in> lang emailRe"
    by (simp add: w emailAddress_def)
qed

lemma split_at_first:
  assumes "a \<notin> set xs" and "a \<notin> set xs'" and "xs @ a # ys = xs' @ a # ys'"
  shows "xs = xs'"
  using assms
proof (induction xs arbitrary: xs')
  case Nil
  then show ?case
    by (cases xs') auto
next
  case (Cons x xs)
  then show ?case
    by (cases xs') auto
qed

lemma emailRe_not_before:
  assumes parts: "emailParts l d t" and at: "64 \<notin> set pre"
    and bound: "pre = [] \<or> \<not> emailLocal (last pre)" and j: "j < length pre"
  shows "regexMatches emailRe (drop j (pre @ emailAddress l d t @ post)) = []"
proof (rule ccontr)
  assume "regexMatches emailRe (drop j (pre @ emailAddress l d t @ post)) \<noteq> []"
  then obtain r where "r \<in> set (regexMatches emailRe (drop j (pre @ emailAddress l d t @ post)))"
    by (meson last_in_set)
  then obtain w where w: "w \<in> lang emailRe" and e: "drop j (pre @ emailAddress l d t @ post) = w @ r"
    using regexMatches_suffix by blast
  from w obtain l' d' t' where p': "emailParts l' d' t'" and w': "w = emailAddress l' d' t'"
    unfolding lang_emailRe emailLike_def by blast
  have n1: "64 \<notin> set (drop j pre @ l)"
    using at parts email_classes(1) by (auto simp: emailParts_def list_all_iff dest: in_set_dropD)
  have n2: "64 \<notin> set l'"
    using p' email_classes(1) by (auto simp: emailParts_def list_all_iff)
  have "(drop j pre @ l) @ 64 # (d @ [46] @ t @ post) = l' @ 64 # (d' @ [46] @ t' @ r)"
    using e j by (simp add: emailAddress_def w')
  then have "drop j pre @ l = l'"
    by (rule split_at_first [OF n1 n2])
  moreover have "last pre \<in> set (drop j pre)"
    using j by (metis drop_eq_Nil last_drop last_in_set leD)
  ultimately have "emailLocal (last pre)"
    using p' by (auto simp: emailParts_def list_all_iff)
  then show False
    using bound j by auto
qed

text \<open>
  An address that stands in the text with no \<open>@\<close> before it, not directly after a
  character that a local part can hold and not directly before a character that a domain can
  hold, is returned exactly.
\<close>

lemma extractEmail_delimited:
  assumes "emailParts l d t" and "64 \<notin> set pre" and "pre = [] \<or> \<not> emailLocal (last pre)"
    and "post = [] \<or> \<not> emailDomain (hd post)"
  shows "extractEmail (pre @ emailAddress l d t @ post) = Some (emailAddress l d t)"
proof -
  let ?a = "emailAddress l d t"
  obtain ts where "regexMatches emailRe (?a @ post) = post # ts"
    using emailRe_here [OF assms(1,4)] by blast
  then have "regexExec emailRe (?a @ post) = Some (take (length (?a @ post) - length post) (?a @ post))"
    by (rule regexExec_here)
  then have h: "regexExec emailRe (?a @ post) = Some ?a"
    by simp
  have "regexExec emailRe (pre @ ?a @ post) = regexExec emailRe (?a @ post)"
  proof (rule regexExec_skip_prefix)
    fix j
    assume "j < length pre"
    then show "regexMatches emailRe (drop j (pre @ ?a @ post)) = []"
      using assms by (intro emailRe_not_before) simp_all
  qed
  then show ?thesis
    by (simp add: extractEmail_def h)
qed

subsection \<open>The match that is returned\<close>

text \<open>
  The matcher lists the matches of the regular expression at a position from the longest to
  the shortest, so that \<open>extractEmail\<close> returns the longest email-like string at the first
  position where one starts, and \<open>null\<close> when there is none in the text.
\<close>

lemma sorted_regexMatches_Seq_Chars:
  assumes "\<And>t. sorted (map length (regexMatches r t))"
  shows "sorted (map length (regexMatches (Seq (Chars p) r) s))"
proof (cases s)
  case Nil
  then show ?thesis
    by simp
next
  case (Cons c cs)
  show ?thesis
  proof (cases "p c")
    case True
    then have e: "regexMatches (Seq (Chars p) r) s = regexMatches r cs"
      unfolding Cons regexMatches_Seq_Chars by simp
    show ?thesis
      unfolding e by (rule assms)
  next
    case False
    then have e: "regexMatches (Seq (Chars p) r) s = []"
      unfolding Cons regexMatches_Seq_Chars by simp
    show ?thesis
      unfolding e by simp
  qed
qed

lemma sorted_emailTailRe: "sorted (map length (regexMatches emailTailRe s))"
  unfolding emailTailRe_def by (rule sorted_regexMatches_Seq_Chars) (rule sorted_regexMatches_Rep)

lemma emailTail_shape:
  assumes "w \<in> lang emailTailRe"
  shows "\<exists>t. w = 46 # t \<and> list_all isLower t"
  using assms unfolding emailTailRe_def by (auto simp: list_all_iff)

lemma sorted_emailHostRe: "sorted (map length (regexMatches emailHostRe s))"
  unfolding emailHostRe_def
proof (rule sorted_regexMatches_Rep_Seq)
  fix k
  show "sorted (map length (regexMatches emailTailRe (drop k s)))"
    by (rule sorted_emailTailRe)
next
  fix k k' x y
  assume k: "k' < k"
    and x: "x \<in> set (regexMatches emailTailRe (drop k s))"
    and y: "y \<in> set (regexMatches emailTailRe (drop k' s))"
  obtain w where w: "w \<in> lang emailTailRe" "drop k s = w @ x"
    using regexMatches_suffix [OF x] by blast
  obtain w' where w': "w' \<in> lang emailTailRe" "drop k' s = w' @ y"
    using regexMatches_suffix [OF y] by blast
  obtain t where t: "w = 46 # t"
    using emailTail_shape [OF w(1)] by blast
  obtain t' where t': "w' = 46 # t'" "list_all isLower t'"
    using emailTail_shape [OF w'(1)] by blast
  have "drop k s \<noteq> []"
    unfolding w(2) t by simp
  then have kl: "k < length s"
    by simp
  have "hd (drop k s) = 46"
    unfolding w(2) t by simp
  then have sk: "s ! k = 46"
    using kl by (simp add: hd_drop_conv_nth)
  have "length w' \<le> k - k'"
  proof (rule ccontr)
    assume "\<not> length w' \<le> k - k'"
    then have l: "k - k' < length w'"
      by simp
    define i where "i = k - k' - 1"
    have i: "k - k' = Suc i" "k = k' + Suc i"
      using k by (simp_all add: i_def)
    have il: "i < length t'"
      using l unfolding i(1) t'(1) by simp
    have "s ! (k' + Suc i) = drop k' s ! Suc i"
      using kl i(2) by simp
    also have "\<dots> = (46 # t' @ y) ! Suc i"
      unfolding w'(2) t'(1) by simp
    also have "\<dots> = t' ! i"
      using il by (simp add: nth_append)
    finally have "s ! k = t' ! i"
      unfolding i(2) .
    moreover have "isLower (t' ! i)"
      using t'(2) il by (simp add: list_all_length)
    ultimately show False
      using sk by (simp add: isLower_def)
  qed
  moreover have "length (drop k' s) = length w' + length y"
    by (simp add: w'(2))
  moreover have "length x \<le> length (drop k s)"
    by (simp add: w(2))
  ultimately show "length x \<le> length y"
    using k kl by simp
qed

lemma sorted_emailRe: "sorted (map length (regexMatches emailRe s))"
  unfolding emailRe_parts
proof (rule sorted_regexMatches_Rep_Seq)
  fix k
  show "sorted (map length (regexMatches (Seq (Chars (\<lambda>c. c = 64)) emailHostRe) (drop k s)))"
    by (rule sorted_regexMatches_Seq_Chars) (rule sorted_emailHostRe)
next
  fix k k' x y
  assume k: "k' < k" "k \<le> repMax None emailLocal s"
    and y: "y \<in> set (regexMatches (Seq (Chars (\<lambda>c. c = 64)) emailHostRe) (drop k' s))"
  have "k' < length (takeWhile emailLocal s)"
    using k repMax_le [of None emailLocal s] by simp
  then have d: "k' < length s" "emailLocal (s ! k')"
    using nth_within_takeWhile by blast+
  then have "drop k' s = s ! k' # drop (Suc k') s"
    by (simp add: Cons_nth_drop_Suc)
  moreover have "s ! k' \<noteq> 64"
    using d(2) email_classes(1) by auto
  ultimately have "regexMatches (Seq (Chars (\<lambda>c. c = 64)) emailHostRe) (drop k' s) = []"
    by simp
  then have False
    using y by simp
  then show "length x \<le> length y"
    by simp
qed

lemma regexMatches_emailRe_longest:
  assumes "regexMatches emailRe s = t # ts" and "s = w @ t'" and "emailLike w"
  shows "length t \<le> length t'"
proof -
  have "t' \<in> set (regexMatches emailRe s)"
    unfolding regexMatches_set lang_emailRe using assms(2,3) by blast
  moreover have "sorted (map length (t # ts))"
    using sorted_emailRe [of s] assms(1) by simp
  ultimately show ?thesis
    using assms(1) by auto
qed

lemma extractEmail_firstEmail:
  assumes "extractEmail text = Some m"
  shows "firstEmail text m"
proof -
  obtain pre post ts where t: "text = pre @ m @ post"
    and here: "regexMatches emailRe (m @ post) = post # ts"
    and before: "\<forall>j < length pre. regexMatches emailRe (drop j text) = []"
    using regexExec_first [of emailRe "text" m] assms unfolding extractEmail_def by blast
  have "post \<in> set (regexMatches emailRe (m @ post))"
    using here by simp
  then obtain w0 where "w0 \<in> lang emailRe" "m @ post = w0 @ post"
    using regexMatches_suffix by blast
  then have m: "emailLike m"
    unfolding lang_emailRe by simp
  have "length pre < length pre' \<or> (length pre = length pre' \<and> length w \<le> length m)"
    if a: "text = pre' @ w @ post'" and b: "emailLike w" for pre' w post'
  proof -
    have "\<not> length pre' < length pre"
    proof
      assume "length pre' < length pre"
      then have "regexMatches emailRe (drop (length pre') text) = []"
        using before by simp
      moreover have "drop (length pre') text = w @ post'"
        using a by simp
      ultimately have "post' \<notin> set (regexMatches emailRe (w @ post'))"
        by simp
      then show False
        using b unfolding regexMatches_set lang_emailRe by blast
    qed
    moreover have "length w \<le> length m" if "length pre = length pre'"
    proof -
      have "pre @ (m @ post) = pre' @ (w @ post')"
        using t a by simp
      then have e: "m @ post = w @ post'"
        using that by (rule same_length_prefix(2))
      then have "length post \<le> length post'"
        using regexMatches_emailRe_longest [OF here _ b] by simp
      moreover have "length m + length post = length w + length post'"
        using e by (metis length_append)
      ultimately show ?thesis
        by simp
    qed
    ultimately show ?thesis
      by linarith
  qed
  then show ?thesis
    unfolding firstEmail_def using t m by blast
qed

lemma firstEmailE:
  assumes "firstEmail text m"
  obtains pre post where "text = pre @ m @ post" and "emailLike m"
    and "\<forall>pre' w post'. text = pre' @ w @ post' \<and> emailLike w \<longrightarrow>
           length pre < length pre' \<or> (length pre = length pre' \<and> length w \<le> length m)"
proof -
  from assms have "\<exists>pre post. text = pre @ m @ post \<and> emailLike m \<and>
        (\<forall>pre' w post'. text = pre' @ w @ post' \<and> emailLike w \<longrightarrow>
           length pre < length pre' \<or> (length pre = length pre' \<and> length w \<le> length m))"
    by (simp only: firstEmail_def)
  then show ?thesis
    using that by (elim exE conjE)
qed

lemma firstEmail_unique:
  assumes "firstEmail text m" and "firstEmail text m'"
  shows "m = m'"
proof -
  from assms(1) obtain pre post where a: "text = pre @ m @ post" "emailLike m"
    and am: "\<forall>pre' w post'. text = pre' @ w @ post' \<and> emailLike w \<longrightarrow>
           length pre < length pre' \<or> (length pre = length pre' \<and> length w \<le> length m)"
    by (rule firstEmailE)
  from assms(2) obtain pre' post' where b: "text = pre' @ m' @ post'" "emailLike m'"
    and bm: "\<forall>pre w post. text = pre @ w @ post \<and> emailLike w \<longrightarrow>
           length pre' < length pre \<or> (length pre' = length pre \<and> length w \<le> length m')"
    by (rule firstEmailE)
  have "length pre < length pre' \<or> (length pre = length pre' \<and> length m' \<le> length m)"
    using am b by (elim allE [where x = pre'] allE [where x = m'] allE [where x = post']) simp
  moreover have "length pre' < length pre \<or> (length pre' = length pre \<and> length m \<le> length m')"
    using bm a by (elim allE [where x = pre] allE [where x = m] allE [where x = post]) simp
  ultimately have l: "length pre = length pre'" "length m = length m'"
    by linarith+
  have e: "pre @ (m @ post) = pre' @ (m' @ post')"
    using a(1) b(1) by simp
  have "m @ post = m' @ post'"
    using same_length_prefix(2) [OF e l(1)] .
  then show ?thesis
    using l(2) by (rule same_length_prefix(1))
qed

lemma extractEmail_None_iff:
  "extractEmail text = None \<longleftrightarrow> \<not> (\<exists>w. occursIn w text \<and> emailLike w)"
proof
  assume "extractEmail text = None"
  then show "\<not> (\<exists>w. occursIn w text \<and> emailLike w)"
    using regexExec_None_lang [of emailRe "text"]
    by (auto simp: extractEmail_def occursIn_def lang_emailRe)
next
  assume n: "\<not> (\<exists>w. occursIn w text \<and> emailLike w)"
  show "extractEmail text = None"
  proof (rule ccontr)
    assume "extractEmail text \<noteq> None"
    then obtain m where "regexExec emailRe text = Some m"
      by (auto simp: extractEmail_def)
    then have "m \<in> lang emailRe" and "\<exists>pre post. text = pre @ m @ post"
      using regexExec_Some_lang by blast+
    then show False
      using n by (auto simp: occursIn_def lang_emailRe)
  qed
qed

lemma extractEmail_Some_iff: "extractEmail text = Some m \<longleftrightarrow> firstEmail text m"
proof
  assume "extractEmail text = Some m"
  then show "firstEmail text m"
    by (rule extractEmail_firstEmail)
next
  assume f: "firstEmail text m"
  then obtain pre post where "text = pre @ m @ post" and "emailLike m"
    by (rule firstEmailE)
  then have "occursIn m text \<and> emailLike m"
    unfolding occursIn_def by blast
  then have "extractEmail text \<noteq> None"
    unfolding extractEmail_None_iff by blast
  then obtain m0 where m0: "extractEmail text = Some m0"
    by blast
  then have "firstEmail text m0"
    by (rule extractEmail_firstEmail)
  then have "m0 = m"
    using f by (rule firstEmail_unique)
  then show "extractEmail text = Some m"
    using m0 by simp
qed

lemma extractEmail_first_examples:
  "extractEmail (js ''a@b.cd e@f.gh'') = Some (js ''a@b.cd'')"
  "extractEmail (js ''john@example.comgithub'') = Some (js ''john@example.comgithub'')"
  by (simp_all add: extractEmail_def emailRe_def js_def emailLocal_def emailDomain_def isLower_def
      isUpper_def isDigit_def)

subsection \<open>An address in capital letters\<close>

lemma wellFormedAddress_capitals: "wellFormedAddress (js ''JOHN@EXAMPLE.COM'')"
proof -
  have "js ''JOHN@EXAMPLE.COM'' = emailAddress (js ''JOHN'') (js ''EXAMPLE'') (js ''COM'')"
    by (simp add: emailAddress_def js_def)
  moreover have "js ''JOHN'' \<noteq> []" "list_all emailLocal (js ''JOHN'')" "js ''EXAMPLE'' \<noteq> []"
    "list_all emailDomain (js ''EXAMPLE'')" "2 \<le> length (js ''COM'')"
    "list_all (\<lambda>c. isLower c \<or> isUpper c) (js ''COM'')"
    by (simp_all add: js_def emailLocal_def emailDomain_def isLower_def isUpper_def isDigit_def)
  ultimately show ?thesis
    unfolding wellFormedAddress_def by blast
qed

text \<open>
  Claim C6, evaluated. The text \<open>JOHN@EXAMPLE.COM\<close> is a well-formed address, and
  \<open>extractEmail\<close> returns \<open>null\<close> for it: the last class of the regular expression is
  \<open>[a-z]\<close>, while the classes of the local part and of the domain hold the capital
  letters, so that \<open>JOHN@EXAMPLE.com\<close> is returned. An address that ends in lowercase
  letters is returned exactly, also from inside a sentence, and a text without an address
  gives \<open>null\<close>.
\<close>

theorem extractEmail_uppercase_tld:
  "wellFormedAddress (js ''JOHN@EXAMPLE.COM'')
   \<and> extractEmail (js ''JOHN@EXAMPLE.COM'') = None
   \<and> extractEmail (js ''JOHN@EXAMPLE.com'') = Some (js ''JOHN@EXAMPLE.com'')
   \<and> extractEmail (js ''john@example.com'') = Some (js ''john@example.com'')
   \<and> extractEmail (js ''Mail john@example.com. Thanks'') = Some (js ''john@example.com'')
   \<and> extractEmail (js ''no address here'') = None"
proof -
  note defs = extractEmail_def emailRe_def js_def emailLocal_def emailDomain_def isLower_def
    isUpper_def isDigit_def
  have "extractEmail (js ''JOHN@EXAMPLE.COM'') = None"
    by (simp add: defs)
  moreover have "extractEmail (js ''JOHN@EXAMPLE.com'') = Some (js ''JOHN@EXAMPLE.com'')"
    by (simp add: defs)
  moreover have "extractEmail (js ''john@example.com'') = Some (js ''john@example.com'')"
    by (simp add: defs)
  moreover have "extractEmail (js ''Mail john@example.com. Thanks'') = Some (js ''john@example.com'')"
    by (simp add: defs)
  moreover have "extractEmail (js ''no address here'') = None"
    by (simp add: defs)
  ultimately show ?thesis
    using wellFormedAddress_capitals by blast
qed

section \<open>The parser of JSON values consumes its input\<close>

text \<open>
  Every successful parse leaves strictly fewer tokens, so the tests on the length in
  \<open>parseElements\<close> and \<open>parseMembers\<close> never fail: both functions satisfy the
  equations without them.
\<close>

lemma consumesD: "consumes f ts \<Longrightarrow> f ts = Some (v, r) \<Longrightarrow> length r < length ts"
  by (auto simp: consumes_def)

lemma parseValue_array:
  "parseValue (TLBracket # ts) = Some (v, r) \<Longrightarrow>
     (\<exists>r'. ts = TRBracket # r' \<and> r = r') \<or> (\<exists>vs. parseElements ts = Some (vs, r))"
  supply parseElements.simps [simp del] parseMembers.simps [simp del]
  by (cases ts; cases "hd ts") (auto split: option.splits)

lemma parseValue_object:
  "parseValue (TLBrace # ts) = Some (v, r) \<Longrightarrow>
     (\<exists>r'. ts = TRBrace # r' \<and> r = r') \<or> (\<exists>kvs. parseMembers ts = Some (kvs, r))"
  supply parseElements.simps [simp del] parseMembers.simps [simp del]
  by (cases ts; cases "hd ts") (auto split: option.splits)

lemma parseValue_consumes_step:
  assumes e: "\<And>ts'. length ts' < length ts \<Longrightarrow> consumes parseElements ts'"
    and m: "\<And>ts'. length ts' < length ts \<Longrightarrow> consumes parseMembers ts'"
  shows "consumes parseValue ts"
  supply parseElements.simps [simp del] parseMembers.simps [simp del]
  unfolding consumes_def
proof (intro allI impI)
  fix v r
  assume a: "parseValue ts = Some (v, r)"
  then obtain t ts' where ts: "ts = t # ts'"
    by (cases ts) auto
  have e': "parseElements ts' = Some (vs, r) \<Longrightarrow> length r < length ts'" for vs
    using e [of ts'] ts by (auto dest: consumesD)
  have m': "parseMembers ts' = Some (kvs, r) \<Longrightarrow> length r < length ts'" for kvs
    using m [of ts'] ts by (auto dest: consumesD)
  show "length r < length ts"
  proof (cases t)
    case TLBracket
    then show ?thesis
      using parseValue_array [of ts' v r] a ts e' by auto
  next
    case TLBrace
    then show ?thesis
      using parseValue_object [of ts' v r] a ts m' by auto
  qed (use a ts in auto)
qed


lemma parseElements_consumes_step:
  assumes v: "consumes parseValue ts"
    and e: "\<And>ts'. length ts' < length ts \<Longrightarrow> consumes parseElements ts'"
  shows "consumes parseElements ts"
  supply parseElements.simps [simp del] parseMembers.simps [simp del]
  unfolding consumes_def
proof (intro allI impI)
  fix vs r
  assume a: "parseElements ts = Some (vs, r)"
  then obtain x r0 where p: "parseValue ts = Some (x, r0)"
    by (auto simp: parseElements.simps [of ts] split: option.splits)
  have l: "length r0 < length ts"
    using v p by (rule consumesD)
  show "length r < length ts"
  proof (cases r0)
    case Nil
    then show ?thesis
      using a p by (simp add: parseElements.simps [of ts])
  next
    case (Cons t r1)
    have g: "length r1 < length ts"
      using l Cons by simp
    show ?thesis
    proof (cases "t = TComma")
      case True
      then obtain vs' where "parseElements r1 = Some (vs', r)"
        using a p Cons g by (auto simp: parseElements.simps [of ts] split: option.splits)
      then have "length r < length r1"
        using e [OF g] by (auto dest: consumesD)
      then show ?thesis
        using g by simp
    next
      case False
      then have "r = r1"
        using a p Cons by (cases t) (auto simp: parseElements.simps [of ts])
      then show ?thesis
        using g by simp
    qed
  qed
qed

lemma parseMembers_shape:
  assumes "parseMembers ts = Some (kvs, r)"
  shows "\<exists>k ts'. ts = TString k # TColon # ts'"
  supply parseElements.simps [simp del] parseMembers.simps [simp del]
  using assms by (subst (asm) parseMembers.simps) (simp split: list.splits token.splits)

lemma parseMembers_consumes_step:
  assumes v: "\<And>ts'. length ts' < length ts \<Longrightarrow> consumes parseValue ts'"
    and m: "\<And>ts'. length ts' < length ts \<Longrightarrow> consumes parseMembers ts'"
  shows "consumes parseMembers ts"
  supply parseElements.simps [simp del] parseMembers.simps [simp del]
  unfolding consumes_def
proof (intro allI impI)
  fix kvs r
  assume a0: "parseMembers ts = Some (kvs, r)"
  then obtain k ts' where ts: "ts = TString k # TColon # ts'"
    by (blast dest: parseMembers_shape)
  note s = parseMembers.simps [of "TString k # TColon # ts'"]
  have a: "parseMembers (TString k # TColon # ts') = Some (kvs, r)"
    using a0 ts by simp
  then obtain x r0 where p: "parseValue ts' = Some (x, r0)"
    by (auto simp: s split: option.splits)
  have "consumes parseValue ts'"
    by (rule v) (simp add: ts)
  then have l: "length r0 < length ts'"
    using p by (rule consumesD)
  show "length r < length ts"
  proof (cases r0)
    case Nil
    then show ?thesis
      using a p by (simp add: s)
  next
    case (Cons t r1)
    have g: "length r1 < length ts"
      using l Cons ts by simp
    show ?thesis
    proof (cases "t = TComma")
      case True
      then obtain kvs' where "parseMembers r1 = Some (kvs', r)"
        using a p Cons g ts by (auto simp: s split: option.splits)
      then have "length r < length r1"
        using m [OF g] by (auto dest: consumesD)
      then show ?thesis
        using g by simp
    next
      case False
      then have "r = r1"
        using a p Cons by (cases t) (auto simp: s)
      then show ?thesis
        using g by simp
    qed
  qed
qed

lemma parse_consumes:
  "consumes parseValue ts \<and> consumes parseElements ts \<and> consumes parseMembers ts"
proof (induction "length ts" arbitrary: ts rule: less_induct)
  case less
  have v: "consumes parseValue ts"
    by (rule parseValue_consumes_step) (use less in blast)+
  moreover have "consumes parseElements ts"
    by (rule parseElements_consumes_step [OF v]) (use less in blast)
  moreover have "consumes parseMembers ts"
    by (rule parseMembers_consumes_step) (use less in blast)+
  ultimately show ?case
    by blast
qed

lemma parseElements_unguarded:
  "parseElements ts =
     (case parseValue ts of
        None \<Rightarrow> None
      | Some (v, r) \<Rightarrow>
          (case r of
             TComma # r1 \<Rightarrow>
               (case parseElements r1 of None \<Rightarrow> None | Some (vs, r2) \<Rightarrow> Some (v # vs, r2))
           | TRBracket # r1 \<Rightarrow> Some ([v], r1)
           | _ \<Rightarrow> None))"
  supply parseElements.simps [simp del] parseMembers.simps [simp del]
proof (cases "parseValue ts")
  case None
  then show ?thesis
    by (simp add: parseElements.simps [of ts])
next
  case (Some a)
  obtain v r where a: "a = (v, r)"
    by (cases a)
  have "length r < length ts"
    using parse_consumes [of ts] Some a by (auto dest: consumesD)
  then have "\<And>t r1. r = t # r1 \<Longrightarrow> length r1 < length ts"
    by auto
  then show ?thesis
    using Some a by (auto simp: parseElements.simps [of ts] split: list.splits token.splits)
qed

lemma parseMembers_unguarded:
  "parseMembers ts =
     (case ts of
        TString k # TColon # r \<Rightarrow>
          (case parseValue r of
             None \<Rightarrow> None
           | Some (v, r1) \<Rightarrow>
               (case r1 of
                  TComma # r2 \<Rightarrow>
                    (case parseMembers r2 of None \<Rightarrow> None | Some (kvs, r3) \<Rightarrow> Some ((k, v) # kvs, r3))
                | TRBrace # r2 \<Rightarrow> Some ([(k, v)], r2)
                | _ \<Rightarrow> None))
      | _ \<Rightarrow> None)"
  supply parseElements.simps [simp del] parseMembers.simps [simp del]
proof -
  have g: "length r2 < length (TString k # TColon # r)"
    if "parseValue r = Some (v, t # r2)" for k r v t r2
    using parse_consumes [of r] that by (auto dest: consumesD)
  show ?thesis
    by (subst parseMembers.simps)
      (auto split: list.splits token.splits option.splits dest: g)
qed

end
